theory Spec2Isabelle
  imports Main "HOL-Library.FSet" "HOL-Library.Product_Lexorder"
begin

section \<open>Cells and sentences\<close>

text \<open>
  A cell is a Python tuple \<^verbatim>\<open>(i, j)\<close> of unbounded integers. A Python \<^verbatim>\<open>set\<close> of cells is
  always finite, so it is a finite set here; \<^verbatim>\<open>len\<close> is \<open>fcard\<close>.
\<close>

type_synonym cell = "int \<times> int"

text \<open>
  A \<^verbatim>\<open>for\<close> loop over a Python set visits every element once, in an order the language
  leaves open. The loops of this program that run over a set only call \<^verbatim>\<open>mark_mine\<close> or
  \<^verbatim>\<open>mark_safe\<close>; \<open>py_iter\<close> fixes one order, and the lemmas \<open>mark_mines_order\<close> and
  \<open>mark_safes_order\<close> below show that the order does not change the result.
\<close>

definition py_iter :: "cell fset \<Rightarrow> cell list" where
  "py_iter S = sorted_list_of_fset S"

text \<open>Class \<^verbatim>\<open>Sentence\<close>: a set of cells and the number of them that are mines.\<close>

record sentence =
  cells :: "cell fset"
  count :: int

text \<open>\<^verbatim>\<open>Sentence.__eq__\<close>\<close>

definition sentence_eq :: "sentence \<Rightarrow> sentence \<Rightarrow> bool" where
  "sentence_eq a b \<longleftrightarrow> cells a = cells b \<and> count a = count b"

text \<open>\<^verbatim>\<open>Sentence.mark_mine\<close> and \<^verbatim>\<open>Sentence.mark_safe\<close>\<close>

definition sentence_mark_mine :: "sentence \<Rightarrow> cell \<Rightarrow> sentence" where
  "sentence_mark_mine s c =
     (if c |\<notin>| cells s then s
      else s\<lparr>cells := cells s |-| {|c|}, count := count s - 1\<rparr>)"

definition sentence_mark_safe :: "sentence \<Rightarrow> cell \<Rightarrow> sentence" where
  "sentence_mark_safe s c =
     (if c |\<notin>| cells s then s
      else s\<lparr>cells := cells s |-| {|c|}\<rparr>)"

section \<open>Exceptions\<close>

datatype error = ValueError | AttributeError | TypeError | KeyError | IndexError

section \<open>The board (class Minesweeper)\<close>

text \<open>
  \<^verbatim>\<open>board[i][j]\<close> is \<^verbatim>\<open>True\<close> exactly for the cells of \<^verbatim>\<open>self.mines\<close>: the constructor sets
  both together. The board is its size and its set of mines.
\<close>

record minesweeper =
  board_height :: int
  board_width :: int
  board_mines :: "cell fset"

definition in_bounds :: "int \<Rightarrow> int \<Rightarrow> cell \<Rightarrow> bool" where
  "in_bounds h w c \<longleftrightarrow> 0 \<le> fst c \<and> fst c < h \<and> 0 \<le> snd c \<and> snd c < w"

definition is_mine :: "minesweeper \<Rightarrow> cell \<Rightarrow> bool" where
  "is_mine b c \<longleftrightarrow> c |\<in>| board_mines b"

text \<open>\<^verbatim>\<open>Minesweeper.nearby_mines\<close>: the two nested \<^verbatim>\<open>range\<close> loops with their counter.\<close>

definition nearby_mines :: "minesweeper \<Rightarrow> cell \<Rightarrow> int" where
  "nearby_mines b c =
     fold (\<lambda>i cnt.
        fold (\<lambda>j cnt.
           if (i, j) = c then cnt
           else if 0 \<le> i \<and> i < board_height b \<and> 0 \<le> j \<and> j < board_width b
                then (if is_mine b (i, j) then cnt + 1 else cnt)
                else cnt)
          [snd c - 1 .. snd c + 1] cnt)
       [fst c - 1 .. fst c + 1] 0"

section \<open>The knowledge base (class MinesweeperAI)\<close>

text \<open>
  \<^verbatim>\<open>self.knowledge\<close> is a list of \<^verbatim>\<open>Sentence\<close> objects, each appended once when it is
  created, so no object occurs at two positions: mutating every object of the list in place
  is mapping over the list of their values.
\<close>

record ai =
  height :: int
  width :: int
  moves_made :: "cell fset"
  mines :: "cell fset"
  safes :: "cell fset"
  knowledge :: "sentence list"

text \<open>\<^verbatim>\<open>MinesweeperAI.__init__\<close>\<close>

definition init_ai :: "int \<Rightarrow> int \<Rightarrow> ai" where
  "init_ai h w =
     \<lparr>height = h, width = w, moves_made = {||}, mines = {||}, safes = {||}, knowledge = []\<rparr>"

text \<open>\<^verbatim>\<open>MinesweeperAI.mark_mine\<close> and \<^verbatim>\<open>MinesweeperAI.mark_safe\<close>\<close>

definition mark_mine :: "ai \<Rightarrow> cell \<Rightarrow> ai" where
  "mark_mine st c =
     st\<lparr>mines := finsert c (mines st),
        knowledge := map (\<lambda>s. sentence_mark_mine s c) (knowledge st)\<rparr>"

definition mark_safe :: "ai \<Rightarrow> cell \<Rightarrow> ai" where
  "mark_safe st c =
     st\<lparr>safes := finsert c (safes st),
        knowledge := map (\<lambda>s. sentence_mark_safe s c) (knowledge st)\<rparr>"

text \<open>The loops \<^verbatim>\<open>for cell in some_cells: self.mark_mine(cell)\<close> (and \<^verbatim>\<open>mark_safe\<close>).\<close>

definition mark_mines :: "ai \<Rightarrow> cell list \<Rightarrow> ai" where
  "mark_mines st cs = fold (\<lambda>c s. mark_mine s c) cs st"

definition mark_safes :: "ai \<Rightarrow> cell list \<Rightarrow> ai" where
  "mark_safes st cs = fold (\<lambda>c s. mark_safe s c) cs st"

text \<open>\<^verbatim>\<open>MinesweeperAI.surrounding_cells\<close>: the eight candidates, then the four filters.\<close>

definition surrounding_cells :: "ai \<Rightarrow> cell \<Rightarrow> cell fset" where
  "surrounding_cells st c =
     (case c of (row, col) \<Rightarrow>
        let sc = {|(row - 1, col - 1), (row, col - 1), (row + 1, col - 1), (row - 1, col),
                   (row + 1, col), (row - 1, col + 1), (row, col + 1), (row + 1, col + 1)|};
            sc = ffilter (\<lambda>x. fst x \<ge> 0) sc;
            sc = ffilter (\<lambda>x. fst x < height st) sc;
            sc = ffilter (\<lambda>x. snd x \<ge> 0) sc;
            sc = ffilter (\<lambda>x. snd x < width st) sc
        in sc)"

text \<open>\<^verbatim>\<open>MinesweeperAI.get_undiscovered_cells\<close>: the nested \<^verbatim>\<open>range\<close> loops filling a set.\<close>

definition get_undiscovered_cells :: "ai \<Rightarrow> cell fset" where
  "get_undiscovered_cells st =
     fold (\<lambda>i acc.
        fold (\<lambda>j acc. if (i, j) |\<notin>| moves_made st then finsert (i, j) acc else acc)
          [0 .. width st - 1] acc)
       [0 .. height st - 1] {||}"

subsection \<open>Removing from the knowledge list\<close>

text \<open>
  \<^verbatim>\<open>list.remove(x)\<close> deletes the first element equal to \<^verbatim>\<open>x\<close> under \<^verbatim>\<open>__eq__\<close>, which need
  not be the object \<^verbatim>\<open>x\<close> itself, and raises \<^verbatim>\<open>ValueError\<close> when there is none.
  \<open>index_of\<close> is the position it deletes. An operation that can raise returns the
  exception, if any, together with the state as the exception leaves it.
\<close>

fun index_of :: "sentence \<Rightarrow> sentence list \<Rightarrow> nat option" where
  "index_of x [] = None"
| "index_of x (y # ys) =
     (if sentence_eq y x then Some 0
      else case index_of x ys of None \<Rightarrow> None | Some n \<Rightarrow> Some (Suc n))"

definition delete_at :: "nat \<Rightarrow> 'a list \<Rightarrow> 'a list" where
  "delete_at n xs = take n xs @ drop (Suc n) xs"

definition knowledge_remove :: "ai \<Rightarrow> sentence \<Rightarrow> error option \<times> ai" where
  "knowledge_remove st x =
     (case index_of x (knowledge st) of
        None \<Rightarrow> (Some ValueError, st)
      | Some p \<Rightarrow> (None, st\<lparr>knowledge := delete_at p (knowledge st)\<rparr>))"

subsection \<open>consolidate\_cells, first loop\<close>

text \<open>
  A \<^verbatim>\<open>for\<close> loop over a list keeps an index into the live list: each round it stops when
  the index has reached the current length, and otherwise takes the element at the index and
  advances. Removing an element during the loop shifts the rest down, so the element after
  a removed one is not visited.

  In the body, \<^verbatim>\<open>sentence\<close> is the object at position \<open>idx\<close>; the \<^verbatim>\<open>mark_*\<close> calls mutate
  it through the list, and \<^verbatim>\<open>remove\<close> then looks for its value as it is after them.
\<close>

definition resolve_body :: "nat \<Rightarrow> ai \<Rightarrow> error option \<times> ai" where
  "resolve_body idx st =
     (let sentence = knowledge st ! idx in
      if fcard (cells sentence) = 0 then knowledge_remove st sentence
      else if count sentence = 0 then
        (let st' = mark_safes st (py_iter (cells sentence))
         in knowledge_remove st' (knowledge st' ! idx))
      else if count sentence = int (fcard (cells sentence)) then
        (let st' = mark_mines st (py_iter (cells sentence))
         in knowledge_remove st' (knowledge st' ! idx))
      else (None, st))"

lemma length_delete_at: "length (delete_at n xs) \<le> length xs"
  by (simp add: delete_at_def)

lemma length_knowledge_remove:
  "length (knowledge (snd (knowledge_remove st x))) \<le> length (knowledge st)"
  by (simp add: knowledge_remove_def length_delete_at split: option.splits)

lemma length_mark_mines [simp]: "length (knowledge (mark_mines st cs)) = length (knowledge st)"
  unfolding mark_mines_def by (induction cs arbitrary: st) (simp_all add: mark_mine_def)

lemma length_mark_safes [simp]: "length (knowledge (mark_safes st cs)) = length (knowledge st)"
  unfolding mark_safes_def by (induction cs arbitrary: st) (simp_all add: mark_safe_def)

lemma length_resolve_body:
  "length (knowledge (snd (resolve_body idx st))) \<le> length (knowledge st)"
proof -
  have a: "length (knowledge (snd (knowledge_remove (mark_safes st cs) x))) \<le> length (knowledge st)"
    for cs x
    using length_knowledge_remove [of "mark_safes st cs" x] by simp
  have b: "length (knowledge (snd (knowledge_remove (mark_mines st cs) x))) \<le> length (knowledge st)"
    for cs x
    using length_knowledge_remove [of "mark_mines st cs" x] by simp
  show ?thesis
    by (simp add: resolve_body_def Let_def length_knowledge_remove a b)
qed

function resolve_loop :: "nat \<Rightarrow> ai \<Rightarrow> error option \<times> ai" where
  "resolve_loop idx st =
     (if idx < length (knowledge st) then
        (case resolve_body idx st of
           (Some e, st') \<Rightarrow> (Some e, st')
         | (None, st') \<Rightarrow> resolve_loop (Suc idx) st')
      else (None, st))"
  by pat_completeness auto
termination
proof (relation "measure (\<lambda>(idx, st). length (knowledge st) - idx)")
  show "wf (measure (\<lambda>(idx, st). length (knowledge st) - idx))" by simp
next
  fix idx :: nat and st :: ai and x :: "error option" and st' :: ai
  assume lt: "idx < length (knowledge st)" and b: "(x, st') = resolve_body idx st"
  have "length (knowledge st') \<le> length (knowledge st)"
    using length_resolve_body [of idx st] b [symmetric] by simp
  with lt show "((Suc idx, st'), (idx, st)) \<in> measure (\<lambda>(idx, st). length (knowledge st) - idx)"
    by simp
qed

subsection \<open>consolidate\_cells, second loop\<close>

text \<open>
  In the nested loops \<^verbatim>\<open>sentence1\<close> is an object reference that lives through the whole
  inner loop, while the list it came from changes: marking cells mutates the object as long
  as it is in the list, and \<^verbatim>\<open>self.knowledge.remove(sentence1)\<close> may delete an equal
  object at an earlier position (the object then moves down by one) or the object itself
  (which then keeps its last value and is no longer touched by \<^verbatim>\<open>mark_*\<close>).
  \<open>sref\<close> records which: the position of the object in the list, or its detached value.
\<close>

datatype sref = InList nat | Detached sentence

definition deref :: "ai \<Rightarrow> sref \<Rightarrow> sentence" where
  "deref st r = (case r of InList q \<Rightarrow> knowledge st ! q | Detached v \<Rightarrow> v)"

text \<open>\<^verbatim>\<open>self.knowledge.remove(sentence1)\<close>, with the reference followed.\<close>

definition remove_sentence1 :: "ai \<Rightarrow> sref \<Rightarrow> error option \<times> ai \<times> sref" where
  "remove_sentence1 st r =
     (case index_of (deref st r) (knowledge st) of
        None \<Rightarrow> (Some ValueError, st, r)
      | Some p \<Rightarrow>
          (None, st\<lparr>knowledge := delete_at p (knowledge st)\<rparr>,
           (case r of
              InList q \<Rightarrow>
                if p = q then Detached (knowledge st ! q)
                else if p < q then InList (q - 1)
                else InList q
            | Detached v \<Rightarrow> Detached v)))"

text \<open>
  \<^verbatim>\<open>idx1 is not idx2\<close> compares the identity of the two \<^verbatim>\<open>enumerate\<close> counters, not their
  values. Counters of different value are different objects. CPython keeps one shared
  object for each integer from -5 to 256, so equal counters up to 256 are the same object;
  beyond that each \<^verbatim>\<open>enumerate\<close> step makes a new integer object, and two equal counters are
  then not identical.
\<close>

definition idx_is_not :: "nat \<Rightarrow> nat \<Rightarrow> bool" where
  "idx_is_not idx1 idx2 \<longleftrightarrow> idx1 \<noteq> idx2 \<or> 256 < idx1"

text \<open>The body of the inner loop.\<close>

definition subset_body :: "nat \<Rightarrow> nat \<Rightarrow> sref \<Rightarrow> ai \<Rightarrow> error option \<times> ai \<times> sref" where
  "subset_body idx1 idx2 r st =
     (let sentence1 = deref st r; sentence2 = knowledge st ! idx2 in
      if idx_is_not idx1 idx2 then
        if cells sentence1 |\<subseteq>| cells sentence2 then
          if cells sentence1 = cells sentence2 then remove_sentence1 st r
          else if count sentence1 = count sentence2 then
            (let sentence_cells = cells sentence2 |-| cells sentence1
             in remove_sentence1 (mark_safes st (py_iter sentence_cells)) r)
          else if int (fcard (cells sentence2 |-| cells sentence1)) = count sentence2 - count sentence1
                  \<and> fcard (cells sentence2 |-| cells sentence1) > 0 then
            (let sentence_cells = cells sentence2 |-| cells sentence1
             in (None, mark_mines st (py_iter sentence_cells), r))
          else (None, st, r)
        else (None, st, r)
      else (None, st, r))"

lemma length_remove_sentence1:
  "length (knowledge (fst (snd (remove_sentence1 st r)))) \<le> length (knowledge st)"
  by (simp add: remove_sentence1_def length_delete_at split: option.splits)

lemma length_subset_body:
  "length (knowledge (fst (snd (subset_body idx1 idx2 r st)))) \<le> length (knowledge st)"
proof -
  have a: "length (knowledge (fst (snd (remove_sentence1 (mark_safes st cs) r)))) \<le> length (knowledge st)"
    for cs
    using length_remove_sentence1 [of "mark_safes st cs" r] by simp
  show ?thesis
    by (simp add: subset_body_def Let_def length_remove_sentence1 a)
qed

function subset_inner :: "nat \<Rightarrow> nat \<Rightarrow> sref \<Rightarrow> ai \<Rightarrow> error option \<times> ai" where
  "subset_inner idx1 idx2 r st =
     (if idx2 < length (knowledge st) then
        (case subset_body idx1 idx2 r st of
           (Some e, st', r') \<Rightarrow> (Some e, st')
         | (None, st', r') \<Rightarrow> subset_inner idx1 (Suc idx2) r' st')
      else (None, st))"
  by pat_completeness auto
termination
proof (relation "measure (\<lambda>(idx1, idx2, r, st). length (knowledge st) - idx2)")
  show "wf (measure (\<lambda>(idx1, idx2, r, st). length (knowledge st) - idx2))" by simp
next
  fix idx1 idx2 :: nat and r :: sref and st :: ai
    and x :: "error option" and y :: "ai \<times> sref" and st' :: ai and r' :: sref
  assume lt: "idx2 < length (knowledge st)" and b: "(x, y) = subset_body idx1 idx2 r st"
    and q: "(st', r') = y"
  have "length (knowledge st') \<le> length (knowledge st)"
    using length_subset_body [of idx1 idx2 r st] b [symmetric] q [symmetric] by simp
  with lt show "((idx1, Suc idx2, r', st'), (idx1, idx2, r, st))
      \<in> measure (\<lambda>(idx1, idx2, r, st). length (knowledge st) - idx2)"
    by simp
qed

lemma length_subset_inner:
  "length (knowledge (snd (subset_inner idx1 idx2 r st))) \<le> length (knowledge st)"
proof (induction idx1 idx2 r st rule: subset_inner.induct)
  case (1 idx1 idx2 r st)
  show ?case
  proof (cases "idx2 < length (knowledge st)")
    case False
    then show ?thesis by simp
  next
    case True
    obtain e st' r' where b: "subset_body idx1 idx2 r st = (e, st', r')"
      by (metis prod_cases3)
    have le: "length (knowledge st') \<le> length (knowledge st)"
      using length_subset_body [of idx1 idx2 r st] b by simp
    show ?thesis
    proof (cases e)
      case None
      have "length (knowledge (snd (subset_inner idx1 (Suc idx2) r' st'))) \<le> length (knowledge st')"
        using "1.IH" [OF True, of e "(st', r')" st' r'] b None by simp
      with le True b None show ?thesis by simp
    next
      case (Some a)
      with le True b show ?thesis by simp
    qed
  qed
qed

function subset_loop :: "nat \<Rightarrow> ai \<Rightarrow> error option \<times> ai" where
  "subset_loop idx1 st =
     (if idx1 < length (knowledge st) then
        (case subset_inner idx1 0 (InList idx1) st of
           (Some e, st') \<Rightarrow> (Some e, st')
         | (None, st') \<Rightarrow> subset_loop (Suc idx1) st')
      else (None, st))"
  by pat_completeness auto
termination
proof (relation "measure (\<lambda>(idx1, st). length (knowledge st) - idx1)")
  show "wf (measure (\<lambda>(idx1, st). length (knowledge st) - idx1))" by simp
next
  fix idx1 :: nat and st :: ai and x :: "error option" and st' :: ai
  assume lt: "idx1 < length (knowledge st)"
    and b: "(x, st') = subset_inner idx1 0 (InList idx1) st"
  have "length (knowledge st') \<le> length (knowledge st)"
    using length_subset_inner [of idx1 0 "InList idx1" st] b [symmetric] by simp
  with lt show "((Suc idx1, st'), (idx1, st)) \<in> measure (\<lambda>(idx1, st). length (knowledge st) - idx1)"
    by simp
qed

subsection \<open>consolidate\_cells\<close>

text \<open>
  \<^verbatim>\<open>popping_indexes\<close> is created empty and never appended to, so the block after the two
  loops never runs.
\<close>

definition consolidate_cells :: "ai \<Rightarrow> error option \<times> ai" where
  "consolidate_cells st =
     (case resolve_loop 0 st of
        (Some e, st') \<Rightarrow> (Some e, st')
      | (None, st') \<Rightarrow> subset_loop 0 st')"

subsection \<open>add\_knowledge\<close>

definition add_knowledge :: "ai \<Rightarrow> cell \<Rightarrow> int \<Rightarrow> error option \<times> ai" where
  "add_knowledge st c cnt =
     (let st1 = st\<lparr>moves_made := finsert c (moves_made st)\<rparr>;
          st2 = mark_safe st1 c;
          surrounding = surrounding_cells st2 c;
          st3 = (if int (fcard surrounding) = cnt then mark_mines st2 (py_iter surrounding)
                 else st2);
          st4 = (if cnt = 0 then mark_safes st3 (py_iter surrounding) else st3);
          discovered_surrounding_safe_cells = safes st4 |\<inter>| surrounding;
          discovered_surrounding_mine_cells = mines st4 |\<inter>| surrounding;
          undiscovered_surrounding_cells =
            surrounding |-| discovered_surrounding_safe_cells |-| discovered_surrounding_mine_cells;
          undiscovered_surrounding_mines_count = cnt - int (fcard discovered_surrounding_mine_cells);
          st5 = (if fcard undiscovered_surrounding_cells > 0
                    \<and> undiscovered_surrounding_mines_count > 0 then
                   if int (fcard undiscovered_surrounding_cells) = undiscovered_surrounding_mines_count
                   then mark_mines st4 (py_iter undiscovered_surrounding_cells)
                   else st4\<lparr>knowledge := knowledge st4 @
                          [\<lparr>cells = undiscovered_surrounding_cells,
                            count = undiscovered_surrounding_mines_count\<rparr>]\<rparr>
                 else st4)
      in consolidate_cells st5)"

section \<open>Choosing a move\<close>

text \<open>
  \<^verbatim>\<open>set.pop()\<close> removes and returns some element of the set, unspecified which, and raises
  \<^verbatim>\<open>KeyError\<close> on the empty set; \<^verbatim>\<open>list(a_set)\<close> lists the elements once each in some order;
  \<^verbatim>\<open>random.randint(a, b)\<close> returns some integer from \<open>a\<close> to \<open>b\<close> and raises \<^verbatim>\<open>ValueError\<close>
  when there is none. Each is a relation between the input and the outcomes it may have.
\<close>

inductive set_pop :: "cell fset \<Rightarrow> error + cell \<times> cell fset \<Rightarrow> bool" where
  pop_empty: "set_pop {||} (Inl KeyError)"
| pop_element: "x |\<in>| S \<Longrightarrow> set_pop S (Inr (x, S |-| {|x|}))"

inductive py_list :: "cell fset \<Rightarrow> cell list \<Rightarrow> bool" where
  py_listI: "fset_of_list xs = S \<Longrightarrow> distinct xs \<Longrightarrow> py_list S xs"

inductive randint :: "int \<Rightarrow> int \<Rightarrow> error + int \<Rightarrow> bool" where
  randint_empty: "b < a \<Longrightarrow> randint a b (Inl ValueError)"
| randint_value: "a \<le> k \<Longrightarrow> k \<le> b \<Longrightarrow> randint a b (Inr k)"

text \<open>Indexing a list with an integer; a negative index counts from the end.\<close>

definition py_index :: "'a list \<Rightarrow> int \<Rightarrow> error + 'a" where
  "py_index xs k =
     (if 0 \<le> k \<and> k < int (length xs) then Inr (xs ! nat k)
      else if k < 0 \<and> - int (length xs) \<le> k then Inr (xs ! nat (int (length xs) + k))
      else Inl IndexError)"

text \<open>
  \<^verbatim>\<open>MinesweeperAI.make_safe_move\<close>. The outcome is the returned cell (\<open>None\<close> for Python's
  \<^verbatim>\<open>None\<close>) or the exception, and the state of the object after the call.
\<close>

inductive make_safe_move :: "ai \<Rightarrow> (error + cell option) \<times> ai \<Rightarrow> bool" where
  safe_move_found:
    "safe_unmade_moves = safes st |-| moves_made st \<Longrightarrow>
     fcard safe_unmade_moves \<noteq> 0 \<Longrightarrow>
     set_pop safe_unmade_moves (Inr (safe_unmade_move, rest)) \<Longrightarrow>
     make_safe_move st (Inr (Some safe_unmade_move), st)"
| safe_move_raises:
    "safe_unmade_moves = safes st |-| moves_made st \<Longrightarrow>
     fcard safe_unmade_moves \<noteq> 0 \<Longrightarrow>
     set_pop safe_unmade_moves (Inl e) \<Longrightarrow>
     make_safe_move st (Inl e, st)"
| safe_move_none:
    "safe_unmade_moves = safes st |-| moves_made st \<Longrightarrow>
     fcard safe_unmade_moves = 0 \<Longrightarrow>
     make_safe_move st (Inr None, st)"

text \<open>\<^verbatim>\<open>MinesweeperAI.make_random_move\<close>\<close>

inductive make_random_move :: "ai \<Rightarrow> (error + cell option) \<times> ai \<Rightarrow> bool" where
  random_move_none:
    "py_list (get_undiscovered_cells st) listed \<Longrightarrow>
     undiscovered_cells = filter (\<lambda>x. x |\<notin>| mines st) listed \<Longrightarrow>
     length undiscovered_cells = 0 \<Longrightarrow>
     make_random_move st (Inr None, st)"
| random_move_found:
    "py_list (get_undiscovered_cells st) listed \<Longrightarrow>
     undiscovered_cells = filter (\<lambda>x. x |\<notin>| mines st) listed \<Longrightarrow>
     length undiscovered_cells \<noteq> 0 \<Longrightarrow>
     randint 0 (int (length undiscovered_cells) - 1) (Inr k) \<Longrightarrow>
     py_index undiscovered_cells k = Inr randomCell \<Longrightarrow>
     make_random_move st (Inr (Some randomCell), st)"
| random_move_randint_raises:
    "py_list (get_undiscovered_cells st) listed \<Longrightarrow>
     undiscovered_cells = filter (\<lambda>x. x |\<notin>| mines st) listed \<Longrightarrow>
     length undiscovered_cells \<noteq> 0 \<Longrightarrow>
     randint 0 (int (length undiscovered_cells) - 1) (Inl e) \<Longrightarrow>
     make_random_move st (Inl e, st)"
| random_move_index_raises:
    "py_list (get_undiscovered_cells st) listed \<Longrightarrow>
     undiscovered_cells = filter (\<lambda>x. x |\<notin>| mines st) listed \<Longrightarrow>
     length undiscovered_cells \<noteq> 0 \<Longrightarrow>
     randint 0 (int (length undiscovered_cells) - 1) (Inr k) \<Longrightarrow>
     py_index undiscovered_cells k = Inl e \<Longrightarrow>
     make_random_move st (Inl e, st)"

section \<open>Sentence.known\_mines and Sentence.known\_safes\<close>

text \<open>
  Both methods read an attribute of the class object \<^verbatim>\<open>MinesweeperAI\<close>, not of an instance.
  The class body binds only its nine methods (\<^verbatim>\<open>self.mines\<close> and \<^verbatim>\<open>self.safes\<close> are set on
  each instance by \<^verbatim>\<open>__init__\<close>), and what a class inherits from \<^verbatim>\<open>object\<close> has names that
  start and end with two underscores. A name that is bound is bound to a function, which
  \<^verbatim>\<open>set.intersection\<close> refuses as not iterable.
\<close>

datatype pyobj = Function string

definition MinesweeperAI_class_body :: "string list" where
  "MinesweeperAI_class_body =
     [''__init__'', ''mark_mine'', ''mark_safe'', ''add_knowledge'', ''make_safe_move'',
      ''make_random_move'', ''surrounding_cells'', ''get_undiscovered_cells'',
      ''consolidate_cells'']"

definition class_getattr :: "string \<Rightarrow> error + pyobj" where
  "class_getattr name =
     (if name \<in> set MinesweeperAI_class_body then Inr (Function name)
      else Inl AttributeError)"

definition set_intersection :: "cell fset \<Rightarrow> pyobj \<Rightarrow> error + cell fset" where
  "set_intersection S obj = (case obj of Function f \<Rightarrow> Inl TypeError)"

definition known_mines :: "sentence \<Rightarrow> error + cell fset" where
  "known_mines s =
     (case class_getattr ''mines'' of
        Inl e \<Rightarrow> Inl e
      | Inr obj \<Rightarrow> set_intersection (cells s) obj)"

definition known_safes :: "sentence \<Rightarrow> error + cell fset" where
  "known_safes s =
     (case class_getattr ''safes'' of
        Inl e \<Rightarrow> Inl e
      | Inr obj \<Rightarrow> set_intersection (cells s) obj)"

section \<open>Games\<close>

text \<open>
  The states the knowledge base can be in during a game on a board \<open>b\<close>: it starts empty
  with the board's size, and each step reveals a cell of the board that is not a mine and
  passes the board's count for it to \<^verbatim>\<open>add_knowledge\<close>; the state the call leaves is
  reachable whether or not the call raised.
\<close>

inductive reachable :: "minesweeper \<Rightarrow> ai \<Rightarrow> bool" for b :: minesweeper where
  reachable_init: "reachable b (init_ai (board_height b) (board_width b))"
| reachable_step:
    "reachable b st \<Longrightarrow>
     in_bounds (board_height b) (board_width b) c \<Longrightarrow>
     \<not> is_mine b c \<Longrightarrow>
     add_knowledge st c (nearby_mines b c) = (e, st') \<Longrightarrow>
     reachable b st'"

section \<open>Closed forms of the marking loops\<close>

text \<open>What marking a whole set of cells does to one sentence.\<close>

definition sentence_drop_safe :: "cell fset \<Rightarrow> sentence \<Rightarrow> sentence" where
  "sentence_drop_safe S s = s\<lparr>cells := cells s |-| S\<rparr>"

definition sentence_drop_mine :: "cell fset \<Rightarrow> sentence \<Rightarrow> sentence" where
  "sentence_drop_mine S s =
     s\<lparr>cells := cells s |-| S, count := count s - int (fcard (cells s |\<inter>| S))\<rparr>"

section \<open>Vocabulary of the claims\<close>

text \<open>The three sets of known facts only grow from \<open>st\<close> to \<open>st'\<close>.\<close>

definition grows :: "ai \<Rightarrow> ai \<Rightarrow> bool" where
  "grows st st' \<longleftrightarrow>
     moves_made st |\<subseteq>| moves_made st' \<and> safes st |\<subseteq>| safes st' \<and> mines st |\<subseteq>| mines st'"

text \<open>
  The state \<^verbatim>\<open>add_knowledge\<close> has built when it calls \<^verbatim>\<open>consolidate_cells\<close>: the body of
  \<open>add_knowledge\<close> up to that call (lemma \<open>add_knowledge_clue\<close>).
\<close>

definition clue_state :: "ai \<Rightarrow> cell \<Rightarrow> int \<Rightarrow> ai" where
  "clue_state st c cnt =
     (let st1 = st\<lparr>moves_made := finsert c (moves_made st)\<rparr>;
          st2 = mark_safe st1 c;
          surrounding = surrounding_cells st2 c;
          st3 = (if int (fcard surrounding) = cnt then mark_mines st2 (py_iter surrounding)
                 else st2);
          st4 = (if cnt = 0 then mark_safes st3 (py_iter surrounding) else st3);
          discovered_surrounding_safe_cells = safes st4 |\<inter>| surrounding;
          discovered_surrounding_mine_cells = mines st4 |\<inter>| surrounding;
          undiscovered_surrounding_cells =
            surrounding |-| discovered_surrounding_safe_cells |-| discovered_surrounding_mine_cells;
          undiscovered_surrounding_mines_count = cnt - int (fcard discovered_surrounding_mine_cells)
      in (if fcard undiscovered_surrounding_cells > 0
                    \<and> undiscovered_surrounding_mines_count > 0 then
                   if int (fcard undiscovered_surrounding_cells) = undiscovered_surrounding_mines_count
                   then mark_mines st4 (py_iter undiscovered_surrounding_cells)
                   else st4\<lparr>knowledge := knowledge st4 @
                          [\<lparr>cells = undiscovered_surrounding_cells,
                            count = undiscovered_surrounding_mines_count\<rparr>]\<rparr>
                 else st4))"

text \<open>All cells of a grid of the given height and width, and the cells a random move may pick.\<close>

definition grid_cells :: "int \<Rightarrow> int \<Rightarrow> cell fset" where
  "grid_cells h w = fset_of_list (concat (map (\<lambda>i. map (\<lambda>j. (i, j)) [0 .. w - 1]) [0 .. h - 1]))"

definition candidates :: "ai \<Rightarrow> cell fset" where
  "candidates st = grid_cells (height st) (width st) |-| moves_made st |-| mines st"

text \<open>The eight cells around a cell, in or out of the grid.\<close>

definition neighbours8 :: "cell \<Rightarrow> cell fset" where
  "neighbours8 c =
     {|(fst c - 1, snd c - 1), (fst c, snd c - 1), (fst c + 1, snd c - 1), (fst c - 1, snd c),
       (fst c + 1, snd c), (fst c - 1, snd c + 1), (fst c, snd c + 1), (fst c + 1, snd c + 1)|}"

text \<open>
  A sentence is true on a board when its count is the number of its cells that are mines
  of the board; it is pruned in a state when none of its cells is known safe or known to
  be a mine. A state is sound for a board when it has the board's size, every known mine
  is a mine and no known safe cell is, and every stored sentence is true and pruned.
\<close>

definition sentence_true :: "minesweeper \<Rightarrow> sentence \<Rightarrow> bool" where
  "sentence_true b s \<longleftrightarrow> count s = int (fcard (cells s |\<inter>| board_mines b))"

definition pruned :: "ai \<Rightarrow> sentence \<Rightarrow> bool" where
  "pruned st s \<longleftrightarrow> cells s |\<inter>| safes st = {||} \<and> cells s |\<inter>| mines st = {||}"

definition sound :: "minesweeper \<Rightarrow> ai \<Rightarrow> bool" where
  "sound b st \<longleftrightarrow>
     height st = board_height b \<and> width st = board_width b
     \<and> mines st |\<subseteq>| board_mines b \<and> safes st |\<inter>| board_mines b = {||}
     \<and> list_all (sentence_true b) (knowledge st) \<and> list_all (pruned st) (knowledge st)"

text \<open>What \<^verbatim>\<open>sentence1\<close> refers to is a position of the list or a true sentence.\<close>

definition ref_ok :: "minesweeper \<Rightarrow> ai \<Rightarrow> sref \<Rightarrow> bool" where
  "ref_ok b st r =
     (case r of InList q \<Rightarrow> q < length (knowledge st) | Detached v \<Rightarrow> sentence_true b v)"




text \<open>
  The size of a knowledge base is the number of stored sentences plus the number of cells
  in all of them; \<open>rerun n\<close> is \<open>n\<close> runs of \<^verbatim>\<open>consolidate_cells\<close> one after the other, each on
  the state the one before left.
\<close>

definition cells_total :: "sentence list \<Rightarrow> nat" where
  "cells_total k = sum_list (map (\<lambda>s. fcard (cells s)) k)"

definition kb_size :: "ai \<Rightarrow> nat" where
  "kb_size st = length (knowledge st) + cells_total (knowledge st)"


section \<open>Example boards and states\<close>

definition board_1x4 :: minesweeper where
  "board_1x4 = \<lparr>board_height = 1, board_width = 4, board_mines = {|(0, 1)|}\<rparr>"

definition ai_1x4 :: ai where
  "ai_1x4 = snd (add_knowledge (init_ai 1 4) (0, 0) (nearby_mines board_1x4 (0, 0)))"

definition ai_one_safe :: ai where
  "ai_one_safe = \<lparr>height = 2, width = 2, moves_made = {|(0, 0)|}, mines = {||},
                  safes = {|(0, 0), (1, 1)|}, knowledge = []\<rparr>"

definition ai_1x2 :: ai where
  "ai_1x2 = \<lparr>height = 1, width = 2, moves_made = {|(0, 0)|}, mines = {||},
              safes = {|(0, 0)|}, knowledge = []\<rparr>"

text \<open>
  A board of two rows and three columns with mines in the two top corners. Revealing the
  bottom row from left to right gives, at the third clue, the state \<open>kb_clue\<close> that
  \<^verbatim>\<open>add_knowledge\<close> hands to \<^verbatim>\<open>consolidate_cells\<close>; \<open>kb_once\<close> is what one run makes of it
  (the state the third \<^verbatim>\<open>add_knowledge\<close> ends in), \<open>kb_twice\<close> what a second run does
  and \<open>kb_thrice\<close> what a third does.
\<close>

definition board_2x3 :: minesweeper where
  "board_2x3 = \<lparr>board_height = 2, board_width = 3, board_mines = {|(0, 0), (0, 2)|}\<rparr>"

definition ai_2x3 :: ai where
  "ai_2x3 =
     snd (add_knowledge
            (snd (add_knowledge (init_ai 2 3) (1, 0) (nearby_mines board_2x3 (1, 0))))
            (1, 1) (nearby_mines board_2x3 (1, 1)))"


definition kb_once :: ai where
  "kb_once = \<lparr>height = 2, width = 3, moves_made = {|(1, 0), (1, 1), (1, 2)|}, mines = {|(0, 2)|},
     safes = {|(1, 0), (1, 1), (1, 2)|},
     knowledge = [\<lparr>cells = {|(0, 0), (0, 1)|}, count = 1\<rparr>,
                  \<lparr>cells = {|(0, 1)|}, count = 0\<rparr>]\<rparr>"



text \<open>
  A knowledge base that contradicts itself: the same three cells with one mine and with
  two. No game leads to it.
\<close>

definition kb_contradictory :: ai where
  "kb_contradictory = \<lparr>height = 2, width = 3, moves_made = {||}, mines = {||}, safes = {||},
     knowledge = [\<lparr>cells = {|(0, 0), (0, 1), (0, 2)|}, count = 1\<rparr>,
                  \<lparr>cells = {|(0, 0), (0, 1), (0, 2)|}, count = 2\<rparr>,
                  \<lparr>cells = {|(1, 0), (1, 1)|}, count = 1\<rparr>,
                  \<lparr>cells = {|(0, 0), (0, 1), (0, 2)|}, count = 2\<rparr>]\<rparr>"

section \<open>Basic facts\<close>

lemma sentence_eq_iff: "sentence_eq a b \<longleftrightarrow> a = b"
  by (auto simp: sentence_eq_def)

lemma fminus_finsert_right: "A |-| S |-| {|c|} = A |-| finsert c S"
  by auto

lemma fminus_finsert_absorb: "c |\<notin>| A |-| S \<Longrightarrow> A |-| finsert c S = A |-| S"
  by auto

lemma fcard_inter_finsert:
  "fcard (A |\<inter>| finsert c S) =
     (if c |\<in>| A \<and> c |\<notin>| S then fcard (A |\<inter>| S) + 1 else fcard (A |\<inter>| S))"
proof (cases "c |\<in>| A \<and> c |\<notin>| S")
  case True
  then have "A |\<inter>| finsert c S = finsert c (A |\<inter>| S)" by auto
  moreover have "c |\<notin>| A |\<inter>| S" using True by simp
  ultimately show ?thesis using True by (simp add: fcard_finsert_disjoint)
next
  case False
  then have "A |\<inter>| finsert c S = A |\<inter>| S" by auto
  then show ?thesis using False by simp
qed

lemma sentence_mark_safe_drop:
  "sentence_mark_safe (sentence_drop_safe S s) c = sentence_drop_safe (finsert c S) s"
proof (cases "c |\<in>| cells s |-| S")
  case True
  then show ?thesis
    by (simp add: sentence_mark_safe_def sentence_drop_safe_def fminus_finsert_right)
next
  case False
  then show ?thesis
    using fminus_finsert_absorb [OF False]
    by (simp add: sentence_mark_safe_def sentence_drop_safe_def)
qed

lemma sentence_mark_mine_drop:
  "sentence_mark_mine (sentence_drop_mine S s) c = sentence_drop_mine (finsert c S) s"
proof (cases "c |\<in>| cells s |-| S")
  case True
  then have "fcard (cells s |\<inter>| finsert c S) = fcard (cells s |\<inter>| S) + 1"
    using fcard_inter_finsert [of "cells s" c S] by (simp del: finter_finsert_right)
  then have "int (fcard (cells s |\<inter>| finsert c S)) = int (fcard (cells s |\<inter>| S)) + 1"
    by simp
  with True show ?thesis
    by (simp add: sentence_mark_mine_def sentence_drop_mine_def fminus_finsert_right
        del: finter_finsert_right)
next
  case False
  then show ?thesis
    using fminus_finsert_absorb [OF False]
    by (auto simp: sentence_mark_mine_def sentence_drop_mine_def fcard_inter_finsert)
qed

lemma sentence_drop_safe_empty [simp]: "sentence_drop_safe {||} = (\<lambda>s. s)"
  by (rule ext) (simp add: sentence_drop_safe_def)

lemma sentence_drop_mine_empty [simp]: "sentence_drop_mine {||} = (\<lambda>s. s)"
  by (rule ext) (simp add: sentence_drop_mine_def)

lemma mark_safes_closed_aux:
  "mark_safes (st\<lparr>safes := safes st |\<union>| S,
                 knowledge := map (sentence_drop_safe S) (knowledge st)\<rparr>) cs =
     st\<lparr>safes := safes st |\<union>| (S |\<union>| fset_of_list cs),
        knowledge := map (sentence_drop_safe (S |\<union>| fset_of_list cs)) (knowledge st)\<rparr>"
proof (induction cs arbitrary: S)
  case Nil
  then show ?case by (simp add: mark_safes_def)
next
  case (Cons c cs)
  have step:
    "mark_safe (st\<lparr>safes := safes st |\<union>| S,
                  knowledge := map (sentence_drop_safe S) (knowledge st)\<rparr>) c
      = st\<lparr>safes := safes st |\<union>| finsert c S,
           knowledge := map (sentence_drop_safe (finsert c S)) (knowledge st)\<rparr>"
    by (simp add: mark_safe_def sentence_mark_safe_drop comp_def)
  have "mark_safes (st\<lparr>safes := safes st |\<union>| S,
                      knowledge := map (sentence_drop_safe S) (knowledge st)\<rparr>) (c # cs)
      = mark_safes (st\<lparr>safes := safes st |\<union>| finsert c S,
                      knowledge := map (sentence_drop_safe (finsert c S)) (knowledge st)\<rparr>) cs"
    using step by (simp add: mark_safes_def)
  also have "\<dots> = st\<lparr>safes := safes st |\<union>| (finsert c S |\<union>| fset_of_list cs),
        knowledge := map (sentence_drop_safe (finsert c S |\<union>| fset_of_list cs)) (knowledge st)\<rparr>"
    by (rule Cons.IH)
  finally show ?case by simp
qed

lemma mark_safes_closed:
  "mark_safes st cs =
     st\<lparr>safes := safes st |\<union>| fset_of_list cs,
        knowledge := map (sentence_drop_safe (fset_of_list cs)) (knowledge st)\<rparr>"
  using mark_safes_closed_aux [where st = st and S = "{||}" and cs = cs] by simp

lemma mark_mines_closed_aux:
  "mark_mines (st\<lparr>mines := mines st |\<union>| S,
                 knowledge := map (sentence_drop_mine S) (knowledge st)\<rparr>) cs =
     st\<lparr>mines := mines st |\<union>| (S |\<union>| fset_of_list cs),
        knowledge := map (sentence_drop_mine (S |\<union>| fset_of_list cs)) (knowledge st)\<rparr>"
proof (induction cs arbitrary: S)
  case Nil
  then show ?case by (simp add: mark_mines_def)
next
  case (Cons c cs)
  have step:
    "mark_mine (st\<lparr>mines := mines st |\<union>| S,
                  knowledge := map (sentence_drop_mine S) (knowledge st)\<rparr>) c
      = st\<lparr>mines := mines st |\<union>| finsert c S,
           knowledge := map (sentence_drop_mine (finsert c S)) (knowledge st)\<rparr>"
    by (simp add: mark_mine_def sentence_mark_mine_drop comp_def)
  have "mark_mines (st\<lparr>mines := mines st |\<union>| S,
                      knowledge := map (sentence_drop_mine S) (knowledge st)\<rparr>) (c # cs)
      = mark_mines (st\<lparr>mines := mines st |\<union>| finsert c S,
                      knowledge := map (sentence_drop_mine (finsert c S)) (knowledge st)\<rparr>) cs"
    using step by (simp add: mark_mines_def)
  also have "\<dots> = st\<lparr>mines := mines st |\<union>| (finsert c S |\<union>| fset_of_list cs),
        knowledge := map (sentence_drop_mine (finsert c S |\<union>| fset_of_list cs)) (knowledge st)\<rparr>"
    by (rule Cons.IH)
  finally show ?case by simp
qed

lemma mark_mines_closed:
  "mark_mines st cs =
     st\<lparr>mines := mines st |\<union>| fset_of_list cs,
        knowledge := map (sentence_drop_mine (fset_of_list cs)) (knowledge st)\<rparr>"
  using mark_mines_closed_aux [where st = st and S = "{||}" and cs = cs] by simp

text \<open>The order in which a loop visits the cells of a set does not matter.\<close>

lemma mark_mines_order: "set xs = set ys \<Longrightarrow> mark_mines st xs = mark_mines st ys"
proof -
  assume "set xs = set ys"
  then have "fset_of_list xs = fset_of_list ys"
    by (simp add: fset_of_list.rep_eq fset_inject [symmetric])
  then show ?thesis by (simp add: mark_mines_closed)
qed

lemma mark_safes_order: "set xs = set ys \<Longrightarrow> mark_safes st xs = mark_safes st ys"
proof -
  assume "set xs = set ys"
  then have "fset_of_list xs = fset_of_list ys"
    by (simp add: fset_of_list.rep_eq fset_inject [symmetric])
  then show ?thesis by (simp add: mark_safes_closed)
qed

lemma py_iter_fset [simp]: "fset_of_list (py_iter S) = S"
  by (simp add: py_iter_def)

lemma mark_safes_iter:
  "mark_safes st (py_iter S) =
     st\<lparr>safes := safes st |\<union>| S, knowledge := map (sentence_drop_safe S) (knowledge st)\<rparr>"
  by (simp add: mark_safes_closed)

lemma mark_mines_iter:
  "mark_mines st (py_iter S) =
     st\<lparr>mines := mines st |\<union>| S, knowledge := map (sentence_drop_mine S) (knowledge st)\<rparr>"
  by (simp add: mark_mines_closed)

section \<open>The known sets only grow\<close>

lemma grows_refl [simp]: "grows st st"
  by (simp add: grows_def)

lemma grows_trans: "grows a b \<Longrightarrow> grows b c \<Longrightarrow> grows a c"
  by (auto simp: grows_def)

lemma grows_mark_safes: "grows st (mark_safes st cs)"
  by (simp add: grows_def mark_safes_closed)

lemma grows_mark_mines: "grows st (mark_mines st cs)"
  by (simp add: grows_def mark_mines_closed)

lemma grows_knowledge_update [simp]: "grows st (st'\<lparr>knowledge := k\<rparr>) = grows st st'"
  by (simp add: grows_def)

lemma grows_knowledge_remove: "grows st (snd (knowledge_remove st x))"
  by (simp add: knowledge_remove_def split: option.splits)

lemma grows_remove_sentence1: "grows st (fst (snd (remove_sentence1 st r)))"
  by (simp add: remove_sentence1_def split: option.splits)

lemma grows_resolve_body: "grows st (snd (resolve_body idx st))"
proof -
  have a: "grows st (snd (knowledge_remove (mark_safes st cs) x))" for cs x
    using grows_trans [OF grows_mark_safes grows_knowledge_remove] .
  have b: "grows st (snd (knowledge_remove (mark_mines st cs) x))" for cs x
    using grows_trans [OF grows_mark_mines grows_knowledge_remove] .
  show ?thesis
    by (simp add: resolve_body_def Let_def grows_knowledge_remove a b)
qed

lemma grows_resolve_loop: "grows st (snd (resolve_loop idx st))"
proof (induction idx st rule: resolve_loop.induct)
  case (1 idx st)
  show ?case
  proof (cases "idx < length (knowledge st)")
    case False
    then show ?thesis by simp
  next
    case True
    obtain e st' where b: "resolve_body idx st = (e, st')"
      by (cases "resolve_body idx st")
    have g: "grows st st'"
      using grows_resolve_body [of st idx] b by simp
    show ?thesis
    proof (cases e)
      case None
      have "grows st' (snd (resolve_loop (Suc idx) st'))"
        using "1.IH" [OF True b [symmetric] None] .
      with g have "grows st (snd (resolve_loop (Suc idx) st'))"
        by (rule grows_trans)
      with True b None show ?thesis by simp
    next
      case (Some a)
      with g True b show ?thesis by simp
    qed
  qed
qed

lemma grows_subset_body: "grows st (fst (snd (subset_body idx1 idx2 r st)))"
proof -
  have a: "grows st (fst (snd (remove_sentence1 (mark_safes st cs) r)))" for cs
    using grows_trans [OF grows_mark_safes grows_remove_sentence1] .
  show ?thesis
    by (simp add: subset_body_def Let_def grows_remove_sentence1 a grows_mark_mines)
qed

lemma grows_subset_inner: "grows st (snd (subset_inner idx1 idx2 r st))"
proof (induction idx1 idx2 r st rule: subset_inner.induct)
  case (1 idx1 idx2 r st)
  show ?case
  proof (cases "idx2 < length (knowledge st)")
    case False
    then show ?thesis by simp
  next
    case True
    obtain e st' r' where b: "subset_body idx1 idx2 r st = (e, st', r')"
      by (metis prod_cases3)
    have g: "grows st st'"
      using grows_subset_body [of st idx1 idx2 r] b by simp
    show ?thesis
    proof (cases e)
      case None
      have "grows st' (snd (subset_inner idx1 (Suc idx2) r' st'))"
        using "1.IH" [OF True, of e "(st', r')" st' r'] b None by simp
      with g have "grows st (snd (subset_inner idx1 (Suc idx2) r' st'))"
        by (rule grows_trans)
      with True b None show ?thesis by simp
    next
      case (Some a)
      with g True b show ?thesis by simp
    qed
  qed
qed

lemma grows_subset_loop: "grows st (snd (subset_loop idx1 st))"
proof (induction idx1 st rule: subset_loop.induct)
  case (1 idx1 st)
  show ?case
  proof (cases "idx1 < length (knowledge st)")
    case False
    then show ?thesis by simp
  next
    case True
    obtain e st' where b: "subset_inner idx1 0 (InList idx1) st = (e, st')"
      by (cases "subset_inner idx1 0 (InList idx1) st")
    have g: "grows st st'"
      using grows_subset_inner [of st idx1 0 "InList idx1"] b by simp
    show ?thesis
    proof (cases e)
      case None
      have "grows st' (snd (subset_loop (Suc idx1) st'))"
        using "1.IH" [OF True b [symmetric] None] .
      with g have "grows st (snd (subset_loop (Suc idx1) st'))"
        by (rule grows_trans)
      with True b None show ?thesis by simp
    next
      case (Some a)
      with g True b show ?thesis by simp
    qed
  qed
qed

lemma grows_consolidate_cells: "grows st (snd (consolidate_cells st))"
proof -
  obtain e st' where b: "resolve_loop 0 st = (e, st')"
    by (cases "resolve_loop 0 st")
  have g: "grows st st'"
    using grows_resolve_loop [of st 0] b by simp
  show ?thesis
  proof (cases e)
    case None
    with b g grows_trans [OF g grows_subset_loop [of st' 0]] show ?thesis
      by (simp add: consolidate_cells_def)
  next
    case (Some a)
    with b g show ?thesis by (simp add: consolidate_cells_def)
  qed
qed

lemma grows_mark_safe: "grows st (mark_safe st c)"
  by (auto simp: grows_def mark_safe_def)

lemma grows_mark_mine: "grows st (mark_mine st c)"
  by (auto simp: grows_def mark_mine_def)

lemma add_knowledge_clue: "add_knowledge st c cnt = consolidate_cells (clue_state st c cnt)"
  by (simp only: add_knowledge_def clue_state_def Let_def)

lemma grows_clue_state: "grows st (clue_state st c cnt)"
proof -
  define st1 where "st1 = st\<lparr>moves_made := finsert c (moves_made st)\<rparr>"
  define st2 where "st2 = mark_safe st1 c"
  define sc where "sc = surrounding_cells st2 c"
  define st3 where "st3 = (if int (fcard sc) = cnt then mark_mines st2 (py_iter sc) else st2)"
  define st4 where "st4 = (if cnt = 0 then mark_safes st3 (py_iter sc) else st3)"
  define und where "und = sc |-| (safes st4 |\<inter>| sc) |-| (mines st4 |\<inter>| sc)"
  define rem where "rem = cnt - int (fcard (mines st4 |\<inter>| sc))"
  define st5 where "st5 = (if fcard und > 0 \<and> rem > 0 then
                   if int (fcard und) = rem then mark_mines st4 (py_iter und)
                   else st4\<lparr>knowledge := knowledge st4 @ [\<lparr>cells = und, count = rem\<rparr>]\<rparr>
                 else st4)"
  have eq: "clue_state st c cnt = st5"
    unfolding clue_state_def Let_def st5_def rem_def und_def st4_def st3_def sc_def st2_def st1_def
    by (rule refl)
  have g1: "grows st st1" by (auto simp: grows_def st1_def)
  have g2: "grows st1 st2" by (simp add: st2_def grows_mark_safe)
  have g3: "grows st2 st3" by (simp add: st3_def grows_mark_mines)
  have g4: "grows st3 st4" by (simp add: st4_def grows_mark_safes)
  have g5: "grows st4 st5" by (simp add: st5_def grows_mark_mines)
  have "grows st st5"
    using g1 g2 g3 g4 g5 by (blast intro: grows_trans)
  then show ?thesis by (simp add: eq)
qed

lemma grows_add_knowledge: "grows st (snd (add_knowledge st c cnt))"
  unfolding add_knowledge_clue
  using grows_clue_state grows_consolidate_cells by (rule grows_trans)

lemma make_safe_move_state: "make_safe_move st out \<Longrightarrow> snd out = st"
  by (induction rule: make_safe_move.induct) simp_all

lemma make_random_move_state: "make_random_move st out \<Longrightarrow> snd out = st"
  by (induction rule: make_random_move.induct) simp_all

section \<open>Exceptions of the engine\<close>

lemma index_of_None: "index_of x xs = None \<longleftrightarrow> x \<notin> set xs"
  by (induction xs) (auto simp: sentence_eq_iff split: option.splits)

lemma resolve_body_error: "fst (resolve_body idx st) \<in> {None, Some ValueError}"
  by (simp add: resolve_body_def knowledge_remove_def Let_def split: option.splits)

lemma subset_body_error: "fst (subset_body idx1 idx2 r st) \<in> {None, Some ValueError}"
  by (simp add: subset_body_def remove_sentence1_def Let_def split: option.splits)

lemma resolve_loop_error: "fst (resolve_loop idx st) \<in> {None, Some ValueError}"
proof (induction idx st rule: resolve_loop.induct)
  case (1 idx st)
  show ?case
  proof (cases "idx < length (knowledge st)")
    case False
    then show ?thesis by simp
  next
    case True
    obtain e st' where b: "resolve_body idx st = (e, st')"
      by (cases "resolve_body idx st")
    show ?thesis
    proof (cases e)
      case None
      with True b "1.IH" [OF True b [symmetric] None] show ?thesis by simp
    next
      case (Some a)
      with True b resolve_body_error [of idx st] show ?thesis by simp
    qed
  qed
qed

lemma subset_inner_error: "fst (subset_inner idx1 idx2 r st) \<in> {None, Some ValueError}"
proof (induction idx1 idx2 r st rule: subset_inner.induct)
  case (1 idx1 idx2 r st)
  show ?case
  proof (cases "idx2 < length (knowledge st)")
    case False
    then show ?thesis by simp
  next
    case True
    obtain e st' r' where b: "subset_body idx1 idx2 r st = (e, st', r')"
      by (metis prod_cases3)
    show ?thesis
    proof (cases e)
      case None
      have "fst (subset_inner idx1 (Suc idx2) r' st') \<in> {None, Some ValueError}"
        using "1.IH" [OF True, of e "(st', r')" st' r'] b None by simp
      with True b None show ?thesis by simp
    next
      case (Some a)
      with True b subset_body_error [of idx1 idx2 r st] show ?thesis by simp
    qed
  qed
qed

lemma subset_loop_error: "fst (subset_loop idx1 st) \<in> {None, Some ValueError}"
proof (induction idx1 st rule: subset_loop.induct)
  case (1 idx1 st)
  show ?case
  proof (cases "idx1 < length (knowledge st)")
    case False
    then show ?thesis by simp
  next
    case True
    obtain e st' where b: "subset_inner idx1 0 (InList idx1) st = (e, st')"
      by (cases "subset_inner idx1 0 (InList idx1) st")
    show ?thesis
    proof (cases e)
      case None
      with True b "1.IH" [OF True b [symmetric] None] show ?thesis by simp
    next
      case (Some a)
      with True b subset_inner_error [of idx1 0 "InList idx1" st] show ?thesis by simp
    qed
  qed
qed

lemma consolidate_cells_error: "fst (consolidate_cells st) \<in> {None, Some ValueError}"
proof -
  obtain e st' where b: "resolve_loop 0 st = (e, st')"
    by (cases "resolve_loop 0 st")
  show ?thesis
  proof (cases e)
    case None
    with b subset_loop_error [of 0 st'] show ?thesis
      by (simp add: consolidate_cells_def)
  next
    case (Some a)
    with b resolve_loop_error [of 0 st] show ?thesis
      by (simp add: consolidate_cells_def)
  qed
qed

section \<open>The move selectors\<close>

lemma grid_cells_iff: "c |\<in>| grid_cells h w \<longleftrightarrow> in_bounds h w c"
  by (cases c) (auto simp: grid_cells_def in_bounds_def fset_of_list_elem image_iff)

lemma make_safe_move_cases:
  assumes "make_safe_move st (r, st')"
  shows "st' = st \<and>
     (if safes st |-| moves_made st = {||} then r = Inr None
      else \<exists>c. r = Inr (Some c) \<and> c |\<in>| safes st |-| moves_made st)"
  using assms
proof (cases rule: make_safe_move.cases)
  case (safe_move_found safe_unmade_moves safe_unmade_move rest)
  from safe_move_found(5) have "safe_unmade_move |\<in>| safe_unmade_moves"
    by (cases rule: set_pop.cases) simp
  with safe_move_found show ?thesis by auto
next
  case (safe_move_raises safe_unmade_moves e)
  from safe_move_raises(5) have "safe_unmade_moves = {||}"
    by (cases rule: set_pop.cases) simp
  with safe_move_raises show ?thesis by simp
next
  case (safe_move_none safe_unmade_moves)
  then show ?thesis by simp
qed

lemma make_safe_move_total: "\<exists>out. make_safe_move st out"
proof (cases "safes st |-| moves_made st = {||}")
  case True
  then have "make_safe_move st (Inr None, st)"
    by (intro safe_move_none [OF refl]) simp
  then show ?thesis ..
next
  case False
  then obtain c where c: "c |\<in>| safes st |-| moves_made st" by auto
  have "make_safe_move st (Inr (Some c), st)"
    using False by (intro safe_move_found [OF refl _ pop_element [OF c]]) simp
  then show ?thesis ..
qed

lemma inner_fold_cells:
  "fold (\<lambda>j acc. if P (i, j) then finsert (i, j) acc else acc) js acc =
     acc |\<union>| fset_of_list (filter P (map (\<lambda>j. (i, j)) js))"
  by (induction js arbitrary: acc) auto

lemma outer_fold_cells:
  "fold (\<lambda>i acc. fold (\<lambda>j acc. if P (i, j) then finsert (i, j) acc else acc) js acc) is acc =
     acc |\<union>| fset_of_list (filter P (concat (map (\<lambda>i. map (\<lambda>j. (i, j)) js) is)))"
  by (induction "is" arbitrary: acc) (auto simp: inner_fold_cells)

lemma get_undiscovered_cells_eq:
  "get_undiscovered_cells st = grid_cells (height st) (width st) |-| moves_made st"
proof -
  have "get_undiscovered_cells st =
      fset_of_list (filter (\<lambda>x. x |\<notin>| moves_made st)
        (concat (map (\<lambda>i. map (\<lambda>j. (i, j)) [0 .. width st - 1]) [0 .. height st - 1])))"
    unfolding get_undiscovered_cells_def
    using outer_fold_cells [of "\<lambda>x. x |\<notin>| moves_made st" "[0 .. width st - 1]" "[0 .. height st - 1]" "{||}"]
    by simp
  also have "\<dots> = grid_cells (height st) (width st) |-| moves_made st"
    by (auto simp: grid_cells_def fset_of_list_elem)
  finally show ?thesis .
qed

lemma filtered_listing:
  assumes "py_list (get_undiscovered_cells st) listed"
  shows "set (filter (\<lambda>x. x |\<notin>| mines st) listed) = fset (candidates st)"
proof -
  from assms have "fset_of_list listed = get_undiscovered_cells st"
    by (cases rule: py_list.cases) simp
  then have "set listed = fset (grid_cells (height st) (width st) |-| moves_made st)"
    by (metis fset_of_list.rep_eq get_undiscovered_cells_eq)
  then show ?thesis by (auto simp: candidates_def)
qed

lemma py_index_in_range:
  "0 \<le> k \<Longrightarrow> k \<le> int (length xs) - 1 \<Longrightarrow> py_index xs k = Inr (xs ! nat k)"
  by (simp add: py_index_def)

lemma make_random_move_cases:
  assumes "make_random_move st (r, st')"
  shows "st' = st \<and> (r = Inr None \<longleftrightarrow> candidates st = {||})
     \<and> (r \<noteq> Inr None \<longrightarrow> (\<exists>c. r = Inr (Some c) \<and> c |\<in>| candidates st))"
  using assms
proof (cases rule: make_random_move.cases)
  case (random_move_none listed undiscovered_cells)
  have a: "set undiscovered_cells = fset (candidates st)"
    unfolding random_move_none(4) by (rule filtered_listing [OF random_move_none(3)])
  have "undiscovered_cells = []" using random_move_none(5) by simp
  with a have "fset (candidates st) = {}" by simp
  then have "candidates st = {||}" by (metis bot_fset.rep_eq fset_inject)
  with random_move_none show ?thesis by simp
next
  case (random_move_found listed undiscovered_cells k randomCell)
  from random_move_found(6) have k: "0 \<le> k" "k \<le> int (length undiscovered_cells) - 1"
    by (cases rule: randint.cases; simp)+
  with random_move_found(7) have "randomCell = undiscovered_cells ! nat k"
    by (simp add: py_index_in_range)
  moreover have "nat k < length undiscovered_cells" using k by linarith
  ultimately have "randomCell \<in> set undiscovered_cells" by simp
  moreover have "set undiscovered_cells = fset (candidates st)"
    unfolding random_move_found(4) by (rule filtered_listing [OF random_move_found(3)])
  ultimately have "randomCell |\<in>| candidates st" by simp
  with random_move_found show ?thesis by auto
next
  case (random_move_randint_raises listed undiscovered_cells e)
  from random_move_randint_raises(6) have "int (length undiscovered_cells) - 1 < 0"
    by (cases rule: randint.cases) simp
  with random_move_randint_raises(5) show ?thesis by simp
next
  case (random_move_index_raises listed undiscovered_cells k e)
  from random_move_index_raises(6) have k: "0 \<le> k" "k \<le> int (length undiscovered_cells) - 1"
    by (cases rule: randint.cases; simp)+
  with random_move_index_raises(7) show ?thesis by (simp add: py_index_in_range)
qed

lemma make_random_move_total: "\<exists>out. make_random_move st out"
proof -
  define listed where "listed = sorted_list_of_fset (get_undiscovered_cells st)"
  define us where "us = filter (\<lambda>x. x |\<notin>| mines st) listed"
  have "distinct (sorted_list_of_fset S)" for S :: "cell fset"
    by (simp add: sorted_list_of_fset.rep_eq)
  then have l: "py_list (get_undiscovered_cells st) listed"
    by (intro py_listI) (simp_all add: listed_def)
  show ?thesis
  proof (cases "length us = 0")
    case True
    have "make_random_move st (Inr None, st)"
      by (rule random_move_none [OF l us_def True])
    then show ?thesis ..
  next
    case False
    have r: "randint 0 (int (length us) - 1) (Inr 0)"
      using False by (intro randint_value) simp_all
    have i: "py_index us 0 = Inr (us ! 0)"
      using False by (simp add: py_index_def)
    have "make_random_move st (Inr (Some (us ! 0)), st)"
      by (rule random_move_found [OF l us_def False r]) (simp add: i)
    then show ?thesis ..
  qed
qed

lemma make_safe_move_no_error: "\<not> make_safe_move st (Inl e, st')"
  using make_safe_move_cases [of st "Inl e" st'] by (auto split: if_splits)

lemma make_random_move_no_error: "\<not> make_random_move st (Inl e, st')"
  using make_random_move_cases [of st "Inl e" st'] by auto

lemma ai_one_safe_unmade: "safes ai_one_safe |-| moves_made ai_one_safe = {|(1, 1)|}"
  by code_simp

lemma ai_one_safe_move: "make_safe_move ai_one_safe (Inr (Some (1, 1)), ai_one_safe)"
proof -
  have p: "set_pop (safes ai_one_safe |-| moves_made ai_one_safe)
            (Inr ((1, 1), (safes ai_one_safe |-| moves_made ai_one_safe) |-| {|(1, 1)|}))"
    by (rule pop_element) (simp add: ai_one_safe_unmade)
  have c: "fcard (safes ai_one_safe |-| moves_made ai_one_safe) \<noteq> 0"
    by (simp add: ai_one_safe_unmade)
  show ?thesis
    by (rule safe_move_found [OF refl c p])
qed

section \<open>Quiescent states\<close>







section \<open>The board's count\<close>

lemma surrounding_cells_filter:
  "surrounding_cells st c = ffilter (in_bounds (height st) (width st)) (neighbours8 c)"
  by (cases c) (auto simp: surrounding_cells_def neighbours8_def in_bounds_def Let_def)

lemma ffilter_fempty: "ffilter P {||} = {||}"
  by auto

lemma ffilter_finsert:
  "ffilter P (finsert a A) = (if P a then finsert a (ffilter P A) else ffilter P A)"
  by auto

lemma fcard_ffilter_finsert:
  "a |\<notin>| A \<Longrightarrow> fcard (ffilter P (finsert a A)) = of_bool (P a) + fcard (ffilter P A)"
  by (simp add: ffilter_finsert fcard_finsert_disjoint)

lemma fcard_ffilter_neighbours8:
  "int (fcard (ffilter Q (neighbours8 (r, c)))) =
     of_bool (Q (r - 1, c - 1)) + of_bool (Q (r - 1, c)) + of_bool (Q (r - 1, c + 1))
     + of_bool (Q (r, c - 1)) + of_bool (Q (r, c + 1))
     + of_bool (Q (r + 1, c - 1)) + of_bool (Q (r + 1, c)) + of_bool (Q (r + 1, c + 1))"
  by (simp add: neighbours8_def fcard_ffilter_finsert ffilter_fempty)

lemma upto_three: "[i - 1 .. i + 1] = [i - 1, i, i + 1]"
  by (simp add: upto_rec1)

lemma nearby_mines_sum:
  "nearby_mines b (r, c) =
     (let Q = (\<lambda>x. in_bounds (board_height b) (board_width b) x \<and> x |\<in>| board_mines b) in
     of_bool (Q (r - 1, c - 1)) + of_bool (Q (r - 1, c)) + of_bool (Q (r - 1, c + 1))
     + of_bool (Q (r, c - 1)) + of_bool (Q (r, c + 1))
     + of_bool (Q (r + 1, c - 1)) + of_bool (Q (r + 1, c)) + of_bool (Q (r + 1, c + 1)))"
proof -
  have step: "(if (i, j) = (r, c) then cnt
           else if 0 \<le> i \<and> i < board_height b \<and> 0 \<le> j \<and> j < board_width b
                then (if is_mine b (i, j) then cnt + 1 else cnt)
                else cnt) =
       (if (i, j) = (r, c) then cnt
        else cnt + of_bool (in_bounds (board_height b) (board_width b) (i, j) \<and> (i, j) |\<in>| board_mines b))"
    for i j and cnt :: int
    by (auto simp: in_bounds_def is_mine_def)
  show ?thesis
    unfolding nearby_mines_def step
    by (simp add: upto_three Let_def)
qed

lemma nearby_mines_surrounding:
  assumes "height st = board_height b" "width st = board_width b"
  shows "nearby_mines b c = int (fcard (surrounding_cells st c |\<inter>| board_mines b))"
proof -
  obtain r k where c: "c = (r, k)" by (cases c)
  have "surrounding_cells st c |\<inter>| board_mines b =
      ffilter (\<lambda>x. in_bounds (board_height b) (board_width b) x \<and> x |\<in>| board_mines b) (neighbours8 c)"
    unfolding surrounding_cells_filter assms by auto
  then show ?thesis
    unfolding c by (simp only: fcard_ffilter_neighbours8 nearby_mines_sum Let_def)
qed

section \<open>Sound states\<close>

lemma sentence_true_drop_safe:
  assumes "sentence_true b s" "S |\<inter>| board_mines b = {||}"
  shows "sentence_true b (sentence_drop_safe S s)"
proof -
  have "(cells s |-| S) |\<inter>| board_mines b = cells s |\<inter>| board_mines b"
    using assms(2) by auto
  with assms(1) show ?thesis
    by (simp add: sentence_true_def sentence_drop_safe_def)
qed

lemma sentence_true_drop_mine:
  assumes "sentence_true b s" "S |\<subseteq>| board_mines b"
  shows "sentence_true b (sentence_drop_mine S s)"
proof -
  have u: "cells s |\<inter>| board_mines b = ((cells s |-| S) |\<inter>| board_mines b) |\<union>| (cells s |\<inter>| S)"
    using assms(2) by auto
  have d: "((cells s |-| S) |\<inter>| board_mines b) |\<inter>| (cells s |\<inter>| S) = {||}"
    by auto
  have "fcard (cells s |\<inter>| board_mines b) =
      fcard ((cells s |-| S) |\<inter>| board_mines b) + fcard (cells s |\<inter>| S)"
    using fcard_funion_disjoint [OF d] u by simp
  with assms(1) show ?thesis
    by (simp add: sentence_true_def sentence_drop_mine_def)
qed

lemma sound_mark_safes:
  assumes "sound b st" "S |\<inter>| board_mines b = {||}"
  shows "sound b (mark_safes st (py_iter S))"
proof -
  have t: "list_all (sentence_true b) (map (sentence_drop_safe S) (knowledge st))"
    using assms by (simp add: sound_def list_all_iff sentence_true_drop_safe)
  have p: "pruned (st\<lparr>safes := safes st |\<union>| S, knowledge := k\<rparr>) (sentence_drop_safe S s)"
    if "pruned st s" for s k
    using that by (auto simp: pruned_def sentence_drop_safe_def)
  have "safes st |\<union>| S |\<inter>| board_mines b = {||}"
    using assms by (auto simp: sound_def)
  with assms(1) t p show ?thesis
    by (simp add: sound_def mark_safes_iter list_all_iff)
qed

lemma sound_mark_mines:
  assumes "sound b st" "S |\<subseteq>| board_mines b"
  shows "sound b (mark_mines st (py_iter S))"
proof -
  have t: "list_all (sentence_true b) (map (sentence_drop_mine S) (knowledge st))"
    using assms by (simp add: sound_def list_all_iff sentence_true_drop_mine)
  have p: "pruned (st\<lparr>mines := mines st |\<union>| S, knowledge := k\<rparr>) (sentence_drop_mine S s)"
    if "pruned st s" for s k
    using that by (auto simp: pruned_def sentence_drop_mine_def)
  with assms t show ?thesis
    by (simp add: sound_def mark_mines_iter list_all_iff)
qed

lemma sound_mark_safe:
  assumes "sound b st" "c |\<notin>| board_mines b"
  shows "sound b (mark_safe st c)"
proof -
  have "mark_safe st c = mark_safes st [c]" by (simp add: mark_safes_def)
  also have "\<dots> = mark_safes st (py_iter {|c|})"
    by (rule mark_safes_order) (simp add: py_iter_def)
  finally show ?thesis
    using sound_mark_safes [OF assms(1), of "{|c|}"] assms(2) by simp
qed

lemma set_delete_at: "set (delete_at p xs) \<subseteq> set xs"
  unfolding delete_at_def by (auto dest: in_set_takeD in_set_dropD)

lemma sound_knowledge_sub:
  assumes "sound b st" "set k \<subseteq> set (knowledge st)"
  shows "sound b (st\<lparr>knowledge := k\<rparr>)"
  using assms by (auto simp: sound_def list_all_iff pruned_def)

lemma sound_knowledge_remove: "sound b st \<Longrightarrow> sound b (snd (knowledge_remove st x))"
  by (simp add: knowledge_remove_def sound_knowledge_sub set_delete_at split: option.splits)

lemma fcard_inter_zero: "fcard (A |\<inter>| M) = 0 \<Longrightarrow> A |\<inter>| M = {||}"
  by simp

lemma fcard_inter_full: "fcard (A |\<inter>| M) = fcard A \<Longrightarrow> A |\<subseteq>| M"
proof -
  assume "fcard (A |\<inter>| M) = fcard A"
  then have "A |\<inter>| M = A"
    by (intro fcard_seteq) simp_all
  then show ?thesis by auto
qed

lemma sound_nth:
  "sound b st \<Longrightarrow> idx < length (knowledge st) \<Longrightarrow> sentence_true b (knowledge st ! idx)"
  by (simp add: sound_def list_all_length)

lemma sound_resolve_body:
  assumes "sound b st" "idx < length (knowledge st)"
  shows "sound b (snd (resolve_body idx st))"
proof -
  define s where "s = knowledge st ! idx"
  have t: "count s = int (fcard (cells s |\<inter>| board_mines b))"
    using sound_nth [OF assms] by (simp add: s_def sentence_true_def)
  have a: "sound b (snd (knowledge_remove (mark_safes st (py_iter (cells s))) x))"
    if "count s = 0" for x
    using that t assms(1) by (intro sound_knowledge_remove sound_mark_safes) simp_all
  have m: "sound b (snd (knowledge_remove (mark_mines st (py_iter (cells s))) x))"
    if "count s = int (fcard (cells s))" for x
    using that t assms(1)
    by (intro sound_knowledge_remove sound_mark_mines fcard_inter_full) simp_all
  show ?thesis
    using assms(1) a m
    by (simp add: resolve_body_def Let_def s_def [symmetric] sound_knowledge_remove)
qed

lemma length_resolve_body_snd:
  "resolve_body idx st = (e, st') \<Longrightarrow> length (knowledge st') \<le> length (knowledge st)"
  using length_resolve_body [of idx st] by simp

lemma sound_resolve_loop: "sound b st \<Longrightarrow> sound b (snd (resolve_loop idx st))"
proof (induction idx st rule: resolve_loop.induct)
  case (1 idx st)
  show ?case
  proof (cases "idx < length (knowledge st)")
    case False
    with "1.prems" show ?thesis by simp
  next
    case True
    obtain e st' where b: "resolve_body idx st = (e, st')"
      by (cases "resolve_body idx st")
    have s: "sound b st'"
      using sound_resolve_body [OF "1.prems" True] b by simp
    show ?thesis
    proof (cases e)
      case None
      with True b "1.IH" [OF True b [symmetric] None s] show ?thesis by simp
    next
      case (Some a)
      with True b s show ?thesis by simp
    qed
  qed
qed

lemma deref_true: "sound b st \<Longrightarrow> ref_ok b st r \<Longrightarrow> sentence_true b (deref st r)"
  by (cases r) (simp_all add: ref_ok_def deref_def sound_nth)

lemma index_of_Some: "index_of x xs = Some p \<Longrightarrow> p < length xs \<and> xs ! p = x"
proof (induction xs arbitrary: p)
  case Nil
  then show ?case by simp
next
  case (Cons y ys)
  then show ?case
    by (auto simp: sentence_eq_iff split: if_splits option.splits)
qed

lemma length_delete_at_less: "p < length xs \<Longrightarrow> length (delete_at p xs) = length xs - 1"
  by (simp add: delete_at_def)

lemma ref_ok_mark_safes [simp]: "ref_ok b (mark_safes st cs) r = ref_ok b st r"
  by (cases r) (simp_all add: ref_ok_def)

lemma ref_ok_mark_mines [simp]: "ref_ok b (mark_mines st cs) r = ref_ok b st r"
  by (cases r) (simp_all add: ref_ok_def)

lemma sound_remove_sentence1:
  assumes "sound b st" "ref_ok b st r" "remove_sentence1 st r = (e, st', r')"
  shows "sound b st' \<and> ref_ok b st' r'"
proof (cases "index_of (deref st r) (knowledge st)")
  case None
  with assms show ?thesis by (simp add: remove_sentence1_def)
next
  case (Some p)
  from index_of_Some [OF Some] have p: "p < length (knowledge st)" by simp
  have st': "st' = st\<lparr>knowledge := delete_at p (knowledge st)\<rparr>"
    using assms(3) Some by (simp add: remove_sentence1_def)
  have s: "sound b st'"
    unfolding st' using assms(1) by (rule sound_knowledge_sub) (simp add: set_delete_at)
  have "ref_ok b st' r'"
  proof (cases r)
    case (InList q)
    with assms(2) have q: "q < length (knowledge st)" by (simp add: ref_ok_def)
    have r': "r' = (if p = q then Detached (knowledge st ! q)
                    else if p < q then InList (q - 1) else InList q)"
      using assms(3) Some InList by (simp add: remove_sentence1_def)
    show ?thesis
      using p q sound_nth [OF assms(1) q]
      by (auto simp: r' st' ref_ok_def length_delete_at_less)
  next
    case (Detached v)
    have "r' = Detached v"
      using assms(3) Some Detached by (simp add: remove_sentence1_def)
    with assms(2) Detached show ?thesis by (simp add: ref_ok_def)
  qed
  with s show ?thesis ..
qed

lemma true_subset_same_count:
  assumes "sentence_true b s1" "sentence_true b s2" "cells s1 |\<subseteq>| cells s2"
    "count s1 = count s2"
  shows "(cells s2 |-| cells s1) |\<inter>| board_mines b = {||}"
proof -
  have sub: "cells s1 |\<inter>| board_mines b |\<subseteq>| cells s2 |\<inter>| board_mines b"
    using assms(3) by auto
  have "fcard (cells s2 |\<inter>| board_mines b) \<le> fcard (cells s1 |\<inter>| board_mines b)"
    using assms(1,2,4) by (simp add: sentence_true_def)
  with sub have "cells s1 |\<inter>| board_mines b = cells s2 |\<inter>| board_mines b"
    by (rule fcard_seteq)
  then show ?thesis by auto
qed

lemma true_subset_all_mines:
  assumes "sentence_true b s1" "sentence_true b s2" "cells s1 |\<subseteq>| cells s2"
    "int (fcard (cells s2 |-| cells s1)) = count s2 - count s1"
  shows "cells s2 |-| cells s1 |\<subseteq>| board_mines b"
proof -
  have sub: "cells s1 |\<inter>| board_mines b |\<subseteq>| cells s2 |\<inter>| board_mines b"
    using assms(3) by auto
  have e: "(cells s2 |-| cells s1) |\<inter>| board_mines b =
      (cells s2 |\<inter>| board_mines b) |-| (cells s1 |\<inter>| board_mines b)"
    by auto
  have "fcard ((cells s2 |-| cells s1) |\<inter>| board_mines b) =
      fcard (cells s2 |\<inter>| board_mines b) - fcard (cells s1 |\<inter>| board_mines b)"
    unfolding e by (rule fcard_funion_fsubset [OF sub])
  moreover have "fcard (cells s1 |\<inter>| board_mines b) \<le> fcard (cells s2 |\<inter>| board_mines b)"
    using sub by (rule fcard_mono)
  ultimately have "int (fcard ((cells s2 |-| cells s1) |\<inter>| board_mines b)) = count s2 - count s1"
    using assms(1,2) by (simp add: sentence_true_def)
  with assms(4) have "fcard ((cells s2 |-| cells s1) |\<inter>| board_mines b) = fcard (cells s2 |-| cells s1)"
    by simp
  then show ?thesis by (rule fcard_inter_full)
qed

lemma sound_subset_body:
  assumes "sound b st" "ref_ok b st r" "idx2 < length (knowledge st)"
    "subset_body idx1 idx2 r st = (e, st', r')"
  shows "sound b st' \<and> ref_ok b st' r'"
proof -
  define s1 where "s1 = deref st r"
  define s2 where "s2 = knowledge st ! idx2"
  define d where "d = cells s2 |-| cells s1"
  have t1: "sentence_true b s1"
    unfolding s1_def using assms(1,2) by (rule deref_true)
  have t2: "sentence_true b s2"
    unfolding s2_def using assms(1,3) by (rule sound_nth)
  have body: "subset_body idx1 idx2 r st =
     (if idx_is_not idx1 idx2 then
        if cells s1 |\<subseteq>| cells s2 then
          if cells s1 = cells s2 then remove_sentence1 st r
          else if count s1 = count s2 then remove_sentence1 (mark_safes st (py_iter d)) r
          else if int (fcard d) = count s2 - count s1 \<and> fcard d > 0 then
            (None, mark_mines st (py_iter d), r)
          else (None, st, r)
        else (None, st, r)
      else (None, st, r))"
    unfolding subset_body_def Let_def s1_def s2_def d_def by (rule refl)
  have idle: ?thesis if "subset_body idx1 idx2 r st = (None, st, r)"
    using that assms(1,2,4) by simp
  show ?thesis
  proof (cases "idx_is_not idx1 idx2 \<and> cells s1 |\<subseteq>| cells s2")
    case False
    then have "subset_body idx1 idx2 r st = (None, st, r)"
      unfolding body by auto
    then show ?thesis by (rule idle)
  next
    case True
    then have sub: "cells s1 |\<subseteq>| cells s2" by simp
    show ?thesis
    proof (cases "cells s1 = cells s2")
      case same: True
      with True have "subset_body idx1 idx2 r st = remove_sentence1 st r"
        unfolding body by simp
      with assms(4) have "remove_sentence1 st r = (e, st', r')" by simp
      with assms(1,2) show ?thesis by (rule sound_remove_sentence1)
    next
      case diff: False
      show ?thesis
      proof (cases "count s1 = count s2")
        case safe: True
        with True diff
        have "subset_body idx1 idx2 r st = remove_sentence1 (mark_safes st (py_iter d)) r"
          unfolding body by simp
        with assms(4) have rm: "remove_sentence1 (mark_safes st (py_iter d)) r = (e, st', r')"
          by simp
        have "d |\<inter>| board_mines b = {||}"
          unfolding d_def using t1 t2 sub safe by (rule true_subset_same_count)
        with assms(1) have "sound b (mark_safes st (py_iter d))" by (rule sound_mark_safes)
        moreover have "ref_ok b (mark_safes st (py_iter d)) r" using assms(2) by simp
        ultimately show ?thesis
          using rm by (rule sound_remove_sentence1)
      next
        case unequal: False
        show ?thesis
        proof (cases "int (fcard d) = count s2 - count s1 \<and> fcard d > 0")
          case mine: True
          with True diff unequal
          have "subset_body idx1 idx2 r st = (None, mark_mines st (py_iter d), r)"
            unfolding body by simp
          with assms(4) have out: "st' = mark_mines st (py_iter d)" "r' = r" by simp_all
          from mine have "int (fcard (cells s2 |-| cells s1)) = count s2 - count s1"
            by (simp add: d_def)
          with t1 t2 sub have "d |\<subseteq>| board_mines b"
            unfolding d_def by (rule true_subset_all_mines)
          with assms(1) have "sound b (mark_mines st (py_iter d))" by (rule sound_mark_mines)
          with out assms(2) show ?thesis by simp
        next
          case False
          then have "\<not> (int (fcard d) = count s2 - count s1 \<and> 0 < fcard d)" .
          then have "(if int (fcard d) = count s2 - count s1 \<and> 0 < fcard d
                then (None, mark_mines st (py_iter d), r) else (None, st, r)) = (None, st, r)"
            by (rule if_not_P)
          with True diff unequal have "subset_body idx1 idx2 r st = (None, st, r)"
            unfolding body by (simp only: if_True if_False simp_thms)
          then show ?thesis by (rule idle)
        qed
      qed
    qed
  qed
qed

lemma sound_subset_inner:
  "sound b st \<Longrightarrow> ref_ok b st r \<Longrightarrow> sound b (snd (subset_inner idx1 idx2 r st))"
proof (induction idx1 idx2 r st rule: subset_inner.induct)
  case (1 idx1 idx2 r st)
  show ?case
  proof (cases "idx2 < length (knowledge st)")
    case False
    with "1.prems" show ?thesis by simp
  next
    case True
    obtain e st' r' where b: "subset_body idx1 idx2 r st = (e, st', r')"
      by (metis prod_cases3)
    have s: "sound b st' \<and> ref_ok b st' r'"
      using sound_subset_body [OF "1.prems" True b] .
    show ?thesis
    proof (cases e)
      case None
      have "sound b (snd (subset_inner idx1 (Suc idx2) r' st'))"
        using "1.IH" [OF True, of e "(st', r')" st' r'] b None s by simp
      with True b None show ?thesis by simp
    next
      case (Some a)
      with True b s show ?thesis by simp
    qed
  qed
qed

lemma sound_subset_loop: "sound b st \<Longrightarrow> sound b (snd (subset_loop idx1 st))"
proof (induction idx1 st rule: subset_loop.induct)
  case (1 idx1 st)
  show ?case
  proof (cases "idx1 < length (knowledge st)")
    case False
    with "1.prems" show ?thesis by simp
  next
    case True
    obtain e st' where b: "subset_inner idx1 0 (InList idx1) st = (e, st')"
      by (cases "subset_inner idx1 0 (InList idx1) st")
    have "ref_ok b st (InList idx1)" using True by (simp add: ref_ok_def)
    from sound_subset_inner [OF "1.prems" this, of idx1 0] b have s: "sound b st'" by simp
    show ?thesis
    proof (cases e)
      case None
      with True b "1.IH" [OF True b [symmetric] None s] show ?thesis by simp
    next
      case (Some a)
      with True b s show ?thesis by simp
    qed
  qed
qed

lemma sound_consolidate_cells: "sound b st \<Longrightarrow> sound b (snd (consolidate_cells st))"
proof -
  assume s: "sound b st"
  obtain e st' where b: "resolve_loop 0 st = (e, st')"
    by (cases "resolve_loop 0 st")
  have s': "sound b st'"
    using sound_resolve_loop [OF s, of 0] b by simp
  show ?thesis
  proof (cases e)
    case None
    with b sound_subset_loop [OF s', of 0] show ?thesis
      by (simp add: consolidate_cells_def)
  next
    case (Some a)
    with b s' show ?thesis by (simp add: consolidate_cells_def)
  qed
qed

lemma sound_init: "sound b (init_ai (board_height b) (board_width b))"
  by (simp add: sound_def init_ai_def)

lemma sound_moves_made [simp]: "sound b (st\<lparr>moves_made := m\<rparr>) = sound b st"
  by (simp add: sound_def list_all_iff pruned_def)

lemma sound_append:
  assumes "sound b st" "sentence_true b s" "pruned st s"
  shows "sound b (st\<lparr>knowledge := knowledge st @ [s]\<rparr>)"
  using assms by (simp add: sound_def pruned_def list_all_iff)

lemma unknown_neighbours_true:
  assumes "mines4 |\<subseteq>| M" "safes4 |\<inter>| M = {||}"
  shows "int (fcard ((sc |-| (safes4 |\<inter>| sc) |-| (mines4 |\<inter>| sc)) |\<inter>| M)) =
     int (fcard (sc |\<inter>| M)) - int (fcard (mines4 |\<inter>| sc))"
proof -
  define und where "und = sc |-| (safes4 |\<inter>| sc) |-| (mines4 |\<inter>| sc)"
  have u: "sc |\<inter>| M = (und |\<inter>| M) |\<union>| (mines4 |\<inter>| sc)"
    using assms unfolding und_def by auto
  have d: "(und |\<inter>| M) |\<inter>| (mines4 |\<inter>| sc) = {||}"
    unfolding und_def by auto
  have "fcard (sc |\<inter>| M) = fcard (und |\<inter>| M) + fcard (mines4 |\<inter>| sc)"
    unfolding u by (rule fcard_funion_disjoint [OF d])
  then show ?thesis by (simp add: und_def)
qed

lemma sound_clue_state:
  assumes s: "sound b st" and c: "\<not> is_mine b c"
  shows "sound b (clue_state st c (nearby_mines b c))"
proof -
  define cnt where "cnt = nearby_mines b c"
  define M where "M = board_mines b"
  define st1 where "st1 = st\<lparr>moves_made := finsert c (moves_made st)\<rparr>"
  define st2 where "st2 = mark_safe st1 c"
  define sc where "sc = surrounding_cells st2 c"
  define st3 where "st3 = (if int (fcard sc) = cnt then mark_mines st2 (py_iter sc) else st2)"
  define st4 where "st4 = (if cnt = 0 then mark_safes st3 (py_iter sc) else st3)"
  define und where "und = sc |-| (safes st4 |\<inter>| sc) |-| (mines st4 |\<inter>| sc)"
  define rem where "rem = cnt - int (fcard (mines st4 |\<inter>| sc))"
  define st5 where "st5 = (if fcard und > 0 \<and> rem > 0 then
                   if int (fcard und) = rem then mark_mines st4 (py_iter und)
                   else st4\<lparr>knowledge := knowledge st4 @ [\<lparr>cells = und, count = rem\<rparr>]\<rparr>
                 else st4)"
  have eq: "clue_state st c (nearby_mines b c) = st5"
    unfolding clue_state_def Let_def st5_def rem_def und_def st4_def st3_def sc_def st2_def
      st1_def cnt_def
    by (rule refl)
  have s1: "sound b st1" using s by (simp add: st1_def)
  have s2: "sound b st2"
    unfolding st2_def using s1 c by (intro sound_mark_safe) (simp_all add: is_mine_def)
  have hw: "height st2 = board_height b" "width st2 = board_width b"
    using s2 by (simp_all add: sound_def)
  have cnt: "cnt = int (fcard (sc |\<inter>| M))"
    unfolding cnt_def sc_def M_def using hw by (rule nearby_mines_surrounding)
  have s3: "sound b st3"
  proof (cases "int (fcard sc) = cnt")
    case True
    with cnt have "fcard (sc |\<inter>| M) = fcard sc" by simp
    then have "sc |\<subseteq>| board_mines b" unfolding M_def by (rule fcard_inter_full)
    with s2 True show ?thesis by (simp add: st3_def sound_mark_mines)
  next
    case False
    with s2 show ?thesis by (simp add: st3_def)
  qed
  have s4: "sound b st4"
  proof (cases "cnt = 0")
    case True
    with cnt have "sc |\<inter>| board_mines b = {||}" by (simp add: M_def)
    with s3 True show ?thesis by (simp add: st4_def sound_mark_safes)
  next
    case False
    with s3 show ?thesis by (simp add: st4_def)
  qed
  have m4: "mines st4 |\<subseteq>| M" "safes st4 |\<inter>| M = {||}"
    using s4 by (simp_all add: sound_def M_def)
  have t: "int (fcard (und |\<inter>| M)) = rem"
    unfolding und_def rem_def cnt by (rule unknown_neighbours_true [OF m4])
  have s5: "sound b st5"
  proof (cases "fcard und > 0 \<and> rem > 0")
    case False
    then have "st5 = st4" unfolding st5_def by (rule if_not_P)
    with s4 show ?thesis by simp
  next
    case True
    show ?thesis
    proof (cases "int (fcard und) = rem")
      case all: True
      with t have "fcard (und |\<inter>| M) = fcard und" by simp
      then have "und |\<subseteq>| board_mines b" unfolding M_def by (rule fcard_inter_full)
      with s4 have "sound b (mark_mines st4 (py_iter und))" by (rule sound_mark_mines)
      moreover have "st5 = mark_mines st4 (py_iter und)"
        unfolding st5_def using True all by (simp only: if_True simp_thms)
      ultimately show ?thesis by simp
    next
      case some: False
      have "sentence_true b \<lparr>cells = und, count = rem\<rparr>"
        using t by (simp add: sentence_true_def M_def)
      moreover have "pruned st4 \<lparr>cells = und, count = rem\<rparr>"
        unfolding und_def by (auto simp: pruned_def)
      ultimately have "sound b (st4\<lparr>knowledge := knowledge st4 @ [\<lparr>cells = und, count = rem\<rparr>]\<rparr>)"
        using s4 by (intro sound_append)
      moreover have "st5 = st4\<lparr>knowledge := knowledge st4 @ [\<lparr>cells = und, count = rem\<rparr>]\<rparr>"
        unfolding st5_def using True some by (simp only: if_True if_False simp_thms)
      ultimately show ?thesis by simp
    qed
  qed
  then show ?thesis by (simp only: eq)
qed

lemma sound_add_knowledge:
  "sound b st \<Longrightarrow> \<not> is_mine b c \<Longrightarrow> sound b (snd (add_knowledge st c (nearby_mines b c)))"
  unfolding add_knowledge_clue by (intro sound_consolidate_cells sound_clue_state)

lemma reachable_sound: "reachable b st \<Longrightarrow> sound b st"
proof (induction rule: reachable.induct)
  case reachable_init
  show ?case by (rule sound_init)
next
  case (reachable_step st c e st')
  from sound_add_knowledge [OF reachable_step.IH reachable_step.hyps(3)] reachable_step.hyps(4)
  show ?case by simp
qed

text \<open>The example states arise in a game on the example board.\<close>

lemma ai_2x3_reachable: "reachable board_2x3 ai_2x3"
proof -
  have r0: "reachable board_2x3 (init_ai 2 3)"
    using reachable_init [of board_2x3] by (simp add: board_2x3_def)
  have r1: "reachable board_2x3
      (snd (add_knowledge (init_ai 2 3) (1, 0) (nearby_mines board_2x3 (1, 0))))"
    by (rule reachable_step [OF r0 _ _ surjective_pairing])
      (simp_all add: in_bounds_def is_mine_def board_2x3_def)
  show ?thesis
    unfolding ai_2x3_def
    by (rule reachable_step [OF r1 _ _ surjective_pairing])
      (simp_all add: in_bounds_def is_mine_def board_2x3_def)
qed

lemma kb_once_arises: "add_knowledge ai_2x3 (1, 2) (nearby_mines board_2x3 (1, 2)) = (None, kb_once)"
  by code_simp

lemma kb_once_reachable: "reachable board_2x3 kb_once"
  by (rule reachable_step [OF ai_2x3_reachable _ _ kb_once_arises])
    (simp_all add: in_bounds_def is_mine_def board_2x3_def)

section \<open>No exception in a game\<close>

lemma index_of_member: "x \<in> set xs \<Longrightarrow> index_of x xs \<noteq> None"
  by (simp add: index_of_None)

lemma knowledge_remove_member:
  "x \<in> set (knowledge st) \<Longrightarrow> fst (knowledge_remove st x) = None"
  using index_of_member [of x "knowledge st"]
  by (auto simp: knowledge_remove_def split: option.splits)

lemma resolve_body_no_raise:
  assumes "idx < length (knowledge st)"
  shows "fst (resolve_body idx st) = None"
proof -
  have a: "fst (knowledge_remove st' (knowledge st' ! idx)) = None"
    if "length (knowledge st') = length (knowledge st)" for st'
    using that assms by (intro knowledge_remove_member) simp
  show ?thesis
    using a [of st] a [of "mark_safes st cs" for cs] a [of "mark_mines st cs" for cs]
    by (simp add: resolve_body_def Let_def)
qed

lemma resolve_loop_no_raise: "fst (resolve_loop idx st) = None"
proof (induction idx st rule: resolve_loop.induct)
  case (1 idx st)
  show ?case
  proof (cases "idx < length (knowledge st)")
    case False
    then show ?thesis by simp
  next
    case True
    obtain e st' where b: "resolve_body idx st = (e, st')"
      by (cases "resolve_body idx st")
    with resolve_body_no_raise [OF True] have e: "e = None" by simp
    with True b "1.IH" [OF True b [symmetric] e] show ?thesis by simp
  qed
qed

lemma sentence_eqI: "cells a = cells b \<Longrightarrow> count a = count b \<Longrightarrow> a = (b :: sentence)"
  by simp

lemma remove_sentence1_member:
  "deref st r \<in> set (knowledge st) \<Longrightarrow> fst (remove_sentence1 st r) = None"
  using index_of_member [of "deref st r" "knowledge st"]
  by (auto simp: remove_sentence1_def split: option.splits)

lemma deref_mark_safes:
  assumes "ref_ok b st r" "cells (deref st r) |\<inter>| S = {||}"
  shows "deref (mark_safes st (py_iter S)) r = deref st r"
proof (cases r)
  case (InList q)
  with assms(1) have q: "q < length (knowledge st)" by (simp add: ref_ok_def)
  have "cells (knowledge st ! q) |-| S = cells (knowledge st ! q)"
    using assms(2) InList by (auto simp: deref_def)
  with q InList show ?thesis
    by (simp add: deref_def mark_safes_iter sentence_drop_safe_def)
next
  case (Detached v)
  then show ?thesis by (simp add: deref_def)
qed

lemma subset_body_no_raise:
  assumes "sound b st" "ref_ok b st r" "idx2 < length (knowledge st)"
  shows "fst (subset_body idx1 idx2 r st) = None"
proof -
  define s1 where "s1 = deref st r"
  define s2 where "s2 = knowledge st ! idx2"
  define d where "d = cells s2 |-| cells s1"
  have t1: "sentence_true b s1"
    unfolding s1_def using assms(1,2) by (rule deref_true)
  have t2: "sentence_true b s2"
    unfolding s2_def using assms(1,3) by (rule sound_nth)
  have same: "fst (remove_sentence1 st r) = None" if "cells s1 = cells s2"
  proof -
    from that t1 t2 have "count s1 = count s2" by (simp add: sentence_true_def)
    with that have "s1 = s2" by (rule sentence_eqI)
    then have "deref st r \<in> set (knowledge st)"
      using assms(3) by (simp add: s1_def s2_def)
    then show ?thesis by (rule remove_sentence1_member)
  qed
  have safe: "fst (remove_sentence1 (mark_safes st (py_iter d)) r) = None"
    if sub: "cells s1 |\<subseteq>| cells s2" and cnt: "count s1 = count s2"
  proof -
    have "cells s1 |\<inter>| d = {||}" unfolding d_def by auto
    with assms(2) have dr: "deref (mark_safes st (py_iter d)) r = s1"
      unfolding s1_def by (intro deref_mark_safes)
    have "cells s2 |-| d = cells s1" using sub unfolding d_def by auto
    then have "sentence_drop_safe d s2 = s1"
      using cnt by (intro sentence_eqI) (simp_all add: sentence_drop_safe_def)
    then have "knowledge (mark_safes st (py_iter d)) ! idx2 = s1"
      using assms(3) by (simp add: mark_safes_iter s2_def)
    moreover have "idx2 < length (knowledge (mark_safes st (py_iter d)))"
      using assms(3) by simp
    ultimately have "s1 \<in> set (knowledge (mark_safes st (py_iter d)))"
      by (metis nth_mem)
    with dr show ?thesis by (intro remove_sentence1_member) simp
  qed
  show ?thesis
    unfolding subset_body_def Let_def s1_def [symmetric] s2_def [symmetric] d_def [symmetric]
    using same safe by simp
qed

lemma subset_inner_no_raise:
  "sound b st \<Longrightarrow> ref_ok b st r \<Longrightarrow> fst (subset_inner idx1 idx2 r st) = None"
proof (induction idx1 idx2 r st rule: subset_inner.induct)
  case (1 idx1 idx2 r st)
  show ?case
  proof (cases "idx2 < length (knowledge st)")
    case False
    then show ?thesis by simp
  next
    case True
    obtain e st' r' where b: "subset_body idx1 idx2 r st = (e, st', r')"
      by (metis prod_cases3)
    have s: "sound b st' \<and> ref_ok b st' r'"
      using sound_subset_body [OF "1.prems" True b] .
    have e: "e = None"
      using subset_body_no_raise [OF "1.prems" True, of idx1] b by simp
    have "fst (subset_inner idx1 (Suc idx2) r' st') = None"
      using "1.IH" [OF True, of e "(st', r')" st' r'] b e s by simp
    with True b e show ?thesis by simp
  qed
qed

lemma subset_loop_no_raise: "sound b st \<Longrightarrow> fst (subset_loop idx1 st) = None"
proof (induction idx1 st rule: subset_loop.induct)
  case (1 idx1 st)
  show ?case
  proof (cases "idx1 < length (knowledge st)")
    case False
    then show ?thesis by simp
  next
    case True
    obtain e st' where b: "subset_inner idx1 0 (InList idx1) st = (e, st')"
      by (cases "subset_inner idx1 0 (InList idx1) st")
    have r: "ref_ok b st (InList idx1)" using True by (simp add: ref_ok_def)
    from sound_subset_inner [OF "1.prems" r, of idx1 0] b have s: "sound b st'" by simp
    from subset_inner_no_raise [OF "1.prems" r, of idx1 0] b have e: "e = None" by simp
    with True b "1.IH" [OF True b [symmetric] e s] show ?thesis by simp
  qed
qed

lemma consolidate_cells_no_raise: "sound b st \<Longrightarrow> fst (consolidate_cells st) = None"
proof -
  assume s: "sound b st"
  obtain e st' where b: "resolve_loop 0 st = (e, st')"
    by (cases "resolve_loop 0 st")
  with resolve_loop_no_raise [of 0 st] have e: "e = None" by simp
  have "sound b st'"
    using sound_resolve_loop [OF s, of 0] b by simp
  then have "fst (subset_loop 0 st') = None" by (rule subset_loop_no_raise)
  with b e show ?thesis by (simp add: consolidate_cells_def)
qed

section \<open>Re-running consolidate\_cells\<close>

lemma cells_total_simps [simp]:
  "cells_total [] = 0"
  "cells_total (s # k) = fcard (cells s) + cells_total k"
  "cells_total (k @ k') = cells_total k + cells_total k'"
  by (simp_all add: cells_total_def)

lemma cells_total_shrink:
  assumes "\<And>s. s \<in> set k \<Longrightarrow> cells (f s) |\<subseteq>| cells s"
  shows "cells_total (map f k) \<le> cells_total k"
  using assms
proof (induction k)
  case Nil
  then show ?case by simp
next
  case (Cons s k)
  have "fcard (cells (f s)) \<le> fcard (cells s)"
    by (rule fcard_mono) (simp add: Cons.prems)
  moreover have "cells_total (map f k) \<le> cells_total k"
    by (rule Cons.IH) (simp add: Cons.prems)
  ultimately show ?case by simp
qed


lemma cells_total_delete_at: "cells_total (delete_at p k) \<le> cells_total k"
proof -
  have "k = take p k @ drop p k" by simp
  then have "cells_total k = cells_total (take p k) + cells_total (drop p k)"
    by (metis cells_total_simps(3))
  moreover have "cells_total (drop (Suc p) k) \<le> cells_total (drop p k)"
  proof (cases "p < length k")
    case True
    then have "drop p k = k ! p # drop (Suc p) k" by (simp add: Cons_nth_drop_Suc)
    then show ?thesis by simp
  next
    case False
    then show ?thesis by simp
  qed
  ultimately show ?thesis by (simp add: delete_at_def)
qed

lemma kb_size_delete_at:
  "p < length (knowledge st) \<Longrightarrow>
   kb_size (st\<lparr>knowledge := delete_at p (knowledge st)\<rparr>) < kb_size st"
  using cells_total_delete_at [of p "knowledge st"]
  by (simp add: kb_size_def length_delete_at_less)

lemma cells_drop_safe: "cells (sentence_drop_safe S s) |\<subseteq>| cells s"
  by (auto simp: sentence_drop_safe_def)

lemma cells_drop_mine: "cells (sentence_drop_mine S s) |\<subseteq>| cells s"
  by (auto simp: sentence_drop_mine_def)

lemma kb_size_mark_safes: "kb_size (mark_safes st (py_iter S)) \<le> kb_size st"
  using cells_total_shrink [of "knowledge st" "sentence_drop_safe S", OF cells_drop_safe]
  by (simp add: kb_size_def mark_safes_iter)

lemma kb_size_mark_mines: "kb_size (mark_mines st (py_iter S)) \<le> kb_size st"
  using cells_total_shrink [of "knowledge st" "sentence_drop_mine S", OF cells_drop_mine]
  by (simp add: kb_size_def mark_mines_iter)



lemma kb_size_knowledge_remove: "kb_size (snd (knowledge_remove st x)) \<le> kb_size st"
proof (cases "index_of x (knowledge st)")
  case None
  then show ?thesis by (simp add: knowledge_remove_def)
next
  case (Some p)
  with index_of_Some [OF Some] kb_size_delete_at [of p st] show ?thesis
    by (simp add: knowledge_remove_def)
qed


lemma kb_size_remove_sentence1: "kb_size (fst (snd (remove_sentence1 st r))) \<le> kb_size st"
proof (cases "index_of (deref st r) (knowledge st)")
  case None
  then show ?thesis by (simp add: remove_sentence1_def)
next
  case (Some p)
  with index_of_Some [OF Some] kb_size_delete_at [of p st] show ?thesis
    by (simp add: remove_sentence1_def)
qed


lemma kb_size_resolve_body: "kb_size (snd (resolve_body idx st)) \<le> kb_size st"
proof -
  have a: "kb_size (snd (knowledge_remove (mark_safes st (py_iter S)) x)) \<le> kb_size st" for S x
    using kb_size_knowledge_remove [of "mark_safes st (py_iter S)" x] kb_size_mark_safes [of st S]
    by simp
  have b: "kb_size (snd (knowledge_remove (mark_mines st (py_iter S)) x)) \<le> kb_size st" for S x
    using kb_size_knowledge_remove [of "mark_mines st (py_iter S)" x] kb_size_mark_mines [of st S]
    by simp
  show ?thesis
    by (simp add: resolve_body_def Let_def kb_size_knowledge_remove a b)
qed


lemma kb_size_resolve_loop: "kb_size (snd (resolve_loop idx st)) \<le> kb_size st"
proof (induction idx st rule: resolve_loop.induct)
  case (1 idx st)
  show ?case
  proof (cases "idx < length (knowledge st)")
    case False
    then show ?thesis by simp
  next
    case True
    obtain e st' where b: "resolve_body idx st = (e, st')"
      by (cases "resolve_body idx st")
    have g: "kb_size st' \<le> kb_size st"
      using kb_size_resolve_body [of idx st] b by simp
    show ?thesis
    proof (cases e)
      case None
      have "kb_size (snd (resolve_loop (Suc idx) st')) \<le> kb_size st'"
        using "1.IH" [OF True b [symmetric] None] .
      with g True b None show ?thesis by simp
    next
      case (Some a)
      with g True b show ?thesis by simp
    qed
  qed
qed


lemma subset_body_unfold:
  "subset_body idx1 idx2 r st =
     (if idx_is_not idx1 idx2 \<and> cells (deref st r) |\<subseteq>| cells (knowledge st ! idx2) then
        if cells (deref st r) = cells (knowledge st ! idx2) then remove_sentence1 st r
        else if count (deref st r) = count (knowledge st ! idx2) then
          remove_sentence1
            (mark_safes st (py_iter (cells (knowledge st ! idx2) |-| cells (deref st r)))) r
        else if int (fcard (cells (knowledge st ! idx2) |-| cells (deref st r)))
                  = count (knowledge st ! idx2) - count (deref st r)
                \<and> fcard (cells (knowledge st ! idx2) |-| cells (deref st r)) > 0 then
          (None, mark_mines st (py_iter (cells (knowledge st ! idx2) |-| cells (deref st r))), r)
        else (None, st, r)
      else (None, st, r))"
  by (simp only: subset_body_def Let_def if_bool_eq_conj) simp

lemma kb_size_subset_body: "kb_size (fst (snd (subset_body idx1 idx2 r st))) \<le> kb_size st"
proof -
  have a: "kb_size (fst (snd (remove_sentence1 (mark_safes st (py_iter S)) r))) \<le> kb_size st" for S
    using kb_size_remove_sentence1 [of "mark_safes st (py_iter S)" r] kb_size_mark_safes [of st S]
    by simp
  show ?thesis
    unfolding subset_body_unfold
    by (simp add: kb_size_remove_sentence1 a kb_size_mark_mines del: fcard_0_eq)
qed


lemma kb_size_subset_inner: "kb_size (snd (subset_inner idx1 idx2 r st)) \<le> kb_size st"
proof (induction idx1 idx2 r st rule: subset_inner.induct)
  case (1 idx1 idx2 r st)
  show ?case
  proof (cases "idx2 < length (knowledge st)")
    case False
    then show ?thesis by simp
  next
    case True
    obtain e st' r' where b: "subset_body idx1 idx2 r st = (e, st', r')"
      by (metis prod_cases3)
    have g: "kb_size st' \<le> kb_size st"
      using kb_size_subset_body [of idx1 idx2 r st] b by simp
    show ?thesis
    proof (cases e)
      case None
      have "kb_size (snd (subset_inner idx1 (Suc idx2) r' st')) \<le> kb_size st'"
        using "1.IH" [OF True, of e "(st', r')" st' r'] b None by simp
      with g True b None show ?thesis by simp
    next
      case (Some a)
      with g True b show ?thesis by simp
    qed
  qed
qed


lemma kb_size_subset_loop: "kb_size (snd (subset_loop idx1 st)) \<le> kb_size st"
proof (induction idx1 st rule: subset_loop.induct)
  case (1 idx1 st)
  show ?case
  proof (cases "idx1 < length (knowledge st)")
    case False
    then show ?thesis by simp
  next
    case True
    obtain e st' where b: "subset_inner idx1 0 (InList idx1) st = (e, st')"
      by (cases "subset_inner idx1 0 (InList idx1) st")
    have g: "kb_size st' \<le> kb_size st"
      using kb_size_subset_inner [of idx1 0 "InList idx1" st] b by simp
    show ?thesis
    proof (cases e)
      case None
      have "kb_size (snd (subset_loop (Suc idx1) st')) \<le> kb_size st'"
        using "1.IH" [OF True b [symmetric] None] .
      with g True b None show ?thesis by simp
    next
      case (Some a)
      with g True b show ?thesis by simp
    qed
  qed
qed


lemma kb_size_consolidate_cells: "kb_size (snd (consolidate_cells st)) \<le> kb_size st"
proof -
  obtain e st' where b: "resolve_loop 0 st = (e, st')"
    by (cases "resolve_loop 0 st")
  have g: "kb_size st' \<le> kb_size st"
    using kb_size_resolve_loop [of 0 st] b by simp
  show ?thesis
  proof (cases e)
    case None
    with b g kb_size_subset_loop [of 0 st'] show ?thesis
      by (simp add: consolidate_cells_def)
  next
    case (Some a)
    with b g show ?thesis by (simp add: consolidate_cells_def)
  qed
qed






section \<open>Claims\<close>

subsection \<open>C1: neighbours forced safe by a clue\<close>

text \<open>
  C1 says: when the unknown neighbours of the revealed cell are not empty and the count
  less the known neighbouring mines is 0, \<^verbatim>\<open>add_knowledge\<close> marks every unknown neighbour
  safe. The code does so only when the count itself is 0; when the count is positive and
  all of it is explained by mines already known, the guard
  \<^verbatim>\<open>undiscovered_surrounding_mines_count > 0\<close> skips the unknown neighbours.

  On a board of one row and four columns with its only mine at (0, 1), revealing (0, 0)
  (count 1) makes (0, 1) a known mine. Revealing (0, 2) next (count 1, not a mine) leaves
  the unknown neighbour (0, 3) with 0 mines to find, and the call does not mark it safe.
\<close>

theorem add_knowledge_misses_forced_safe:
  "ai_1x4 = \<lparr>height = 1, width = 4, moves_made = {|(0, 0)|}, mines = {|(0, 1)|},
             safes = {|(0, 0)|}, knowledge = []\<rparr>
   \<and> \<not> is_mine board_1x4 (0, 2) \<and> nearby_mines board_1x4 (0, 2) = 1
   \<and> surrounding_cells ai_1x4 (0, 2) |-| safes (mark_safe ai_1x4 (0, 2)) |-| mines ai_1x4
       = {|(0, 3)|}
   \<and> nearby_mines board_1x4 (0, 2)
         - int (fcard (surrounding_cells ai_1x4 (0, 2) |\<inter>| mines ai_1x4)) = 0
   \<and> add_knowledge ai_1x4 (0, 2) (nearby_mines board_1x4 (0, 2)) =
       (None, \<lparr>height = 1, width = 4, moves_made = {|(0, 0), (0, 2)|}, mines = {|(0, 1)|},
               safes = {|(0, 0), (0, 2)|}, knowledge = []\<rparr>)
   \<and> (0, 3) |\<notin>| safes (snd (add_knowledge ai_1x4 (0, 2) (nearby_mines board_1x4 (0, 2))))"
  by code_simp

subsection \<open>C2: re-running consolidate\_cells\<close>




subsection \<open>C3: safes and mines are disjoint\<close>

text \<open>
  C3: in every state reachable from the initial one by \<^verbatim>\<open>add_knowledge\<close> calls that each
  pass a cell of the board that is not a mine together with the board's count of the mines
  around it, no cell is in both \<^verbatim>\<open>safes\<close> and \<^verbatim>\<open>mines\<close>.
\<close>

theorem safes_mines_disjoint: "reachable b st \<Longrightarrow> safes st |\<inter>| mines st = {||}"
proof -
  assume "reachable b st"
  then have "sound b st" by (rule reachable_sound)
  then have "mines st |\<subseteq>| board_mines b" "safes st |\<inter>| board_mines b = {||}"
    by (simp_all add: sound_def)
  then show ?thesis by auto
qed

text \<open>The state after the three clues of the game on \<open>board_2x3\<close>.\<close>

theorem safes_mines_disjoint_witness:
  "reachable board_2x3 kb_once
   \<and> safes kb_once = {|(1, 0), (1, 1), (1, 2)|} \<and> mines kb_once = {|(0, 2)|}
   \<and> safes kb_once |\<inter>| mines kb_once = {||}"
proof -
  have "safes kb_once = {|(1, 0), (1, 1), (1, 2)|}" "mines kb_once = {|(0, 2)|}"
    by (simp_all add: kb_once_def)
  with safes_mines_disjoint [OF kb_once_reachable] kb_once_reachable show ?thesis by simp
qed

subsection \<open>C4: the first scenario\<close>

text \<open>
  C4 as stated (on a fresh 3 by 3 knowledge base, \<^verbatim>\<open>add_knowledge((2, 2), 0)\<close> marks all
  eight other cells safe and leaves \<^verbatim>\<open>mines\<close> empty) is false: only neighbours are marked.
\<close>

theorem scenario1_counterexample:
  "\<not> ({|(0, 0), (0, 1), (0, 2), (1, 0), (1, 1), (1, 2), (2, 0), (2, 1)|}
        |\<subseteq>| safes (snd (add_knowledge (init_ai 3 3) (2, 2) 0))
      \<and> mines (snd (add_knowledge (init_ai 3 3) (2, 2) 0)) = {||})"
  by code_simp

text \<open>
  C4, amended: on a fresh 3 by 3 knowledge base, \<^verbatim>\<open>add_knowledge((2, 2), 0)\<close> returns
  normally, records the move (2, 2), marks (2, 2) and its three neighbours (1, 1), (1, 2)
  and (2, 1) safe and no other cell, and leaves \<^verbatim>\<open>mines\<close> and the knowledge list empty.
\<close>

theorem scenario1_neighbours_safe:
  "add_knowledge (init_ai 3 3) (2, 2) 0 =
     (None, \<lparr>height = 3, width = 3, moves_made = {|(2, 2)|}, mines = {||},
             safes = {|(1, 1), (1, 2), (2, 1), (2, 2)|}, knowledge = []\<rparr>)"
  by code_simp

subsection \<open>C5: stored sentences are well formed\<close>

text \<open>
  C5: in every state reachable as in C3, every sentence \<open>s\<close> in the knowledge list has
  \<open>0 \<le> count s \<le> |cells s|\<close>, and none of its cells is in \<^verbatim>\<open>safes\<close> or in \<^verbatim>\<open>mines\<close>.
\<close>

theorem sentences_well_formed:
  "reachable b st \<Longrightarrow>
   \<forall>s \<in> set (knowledge st).
     0 \<le> count s \<and> count s \<le> int (fcard (cells s))
     \<and> cells s |\<inter>| safes st = {||} \<and> cells s |\<inter>| mines st = {||}"
proof
  fix s
  assume "reachable b st" and in_k: "s \<in> set (knowledge st)"
  then have "sound b st" by (simp add: reachable_sound)
  with in_k have t: "sentence_true b s" and p: "pruned st s"
    by (simp_all add: sound_def list_all_iff)
  have "fcard (cells s |\<inter>| board_mines b) \<le> fcard (cells s)"
    by (rule fcard_mono) simp
  with t p show "0 \<le> count s \<and> count s \<le> int (fcard (cells s))
     \<and> cells s |\<inter>| safes st = {||} \<and> cells s |\<inter>| mines st = {||}"
    by (simp add: sentence_true_def pruned_def)
qed

text \<open>The first sentence stored after the three clues of the game on \<open>board_2x3\<close>.\<close>

theorem sentences_well_formed_witness:
  "reachable board_2x3 kb_once
   \<and> \<lparr>cells = {|(0, 0), (0, 1)|}, count = 1\<rparr> \<in> set (knowledge kb_once)
   \<and> (0 :: int) \<le> 1 \<and> (1 :: int) \<le> int (fcard {|(0, 0) :: cell, (0, 1)|})
   \<and> {|(0, 0), (0, 1)|} |\<inter>| safes kb_once = {||}
   \<and> {|(0, 0), (0, 1)|} |\<inter>| mines kb_once = {||}"
proof -
  have m: "\<lparr>cells = {|(0, 0), (0, 1)|}, count = 1\<rparr> \<in> set (knowledge kb_once)"
    by (simp add: kb_once_def)
  from sentences_well_formed [OF kb_once_reachable] m
  have "0 \<le> count \<lparr>cells = {|(0, 0), (0, 1)|}, count = 1\<rparr>
     \<and> count \<lparr>cells = {|(0, 0), (0, 1)|}, count = 1\<rparr>
         \<le> int (fcard (cells \<lparr>cells = {|(0, 0), (0, 1)|}, count = 1\<rparr>))
     \<and> cells \<lparr>cells = {|(0, 0), (0, 1)|}, count = 1\<rparr> |\<inter>| safes kb_once = {||}
     \<and> cells \<lparr>cells = {|(0, 0), (0, 1)|}, count = 1\<rparr> |\<inter>| mines kb_once = {||}"
    by (rule bspec)
  with kb_once_reachable m show ?thesis by simp
qed

subsection \<open>C6: marking twice\<close>

text \<open>
  C6: \<^verbatim>\<open>mark_mine\<close> and \<^verbatim>\<open>mark_safe\<close> of the knowledge base are idempotent. Calling either
  twice with the same cell gives the state that calling it once gives: the same
  \<^verbatim>\<open>moves_made\<close>, \<^verbatim>\<open>safes\<close>, \<^verbatim>\<open>mines\<close>, and the same cells and count in every sentence, so the
  second call decrements no count.
\<close>

theorem mark_twice_is_mark_once:
  "mark_mine (mark_mine st c) c = mark_mine st c
   \<and> mark_safe (mark_safe st c) c = mark_safe st c"
proof -
  have m: "sentence_mark_mine (sentence_mark_mine s c) c = sentence_mark_mine s c" for s
    by (simp add: sentence_mark_mine_def)
  have s: "sentence_mark_safe (sentence_mark_safe s c) c = sentence_mark_safe s c" for s
    by (simp add: sentence_mark_safe_def)
  show ?thesis
    by (simp add: mark_mine_def mark_safe_def comp_def m s)
qed

subsection \<open>C7: make\_safe\_move\<close>

text \<open>
  C7: in every state \<^verbatim>\<open>make_safe_move\<close> returns (it has an outcome); it returns \<^verbatim>\<open>None\<close>
  when \<^verbatim>\<open>safes - moves_made\<close> is empty and some element of that set otherwise, it raises
  nothing, and it leaves the whole state as it was.
\<close>

theorem make_safe_move_spec:
  "(\<exists>out. make_safe_move st out) \<and>
   (\<forall>r st'. make_safe_move st (r, st') \<longrightarrow>
      st' = st \<and>
      (if safes st |-| moves_made st = {||} then r = Inr None
       else \<exists>c. r = Inr (Some c) \<and> c |\<in>| safes st |-| moves_made st))"
  using make_safe_move_total make_safe_move_cases by blast

text \<open>
  A state with one safe cell that has not been played, where the only outcome is that
  cell, and the initial state, where the outcome is \<^verbatim>\<open>None\<close>.
\<close>

theorem make_safe_move_spec_witness:
  "make_safe_move ai_one_safe (Inr (Some (1, 1)), ai_one_safe)
   \<and> safes ai_one_safe |-| moves_made ai_one_safe = {|(1, 1)|}
   \<and> (1, 1) |\<in>| safes ai_one_safe |-| moves_made ai_one_safe
   \<and> make_safe_move (init_ai 2 2) (Inr None, init_ai 2 2)
   \<and> safes (init_ai 2 2) |-| moves_made (init_ai 2 2) = {||}"
proof -
  have e: "safes (init_ai 2 2) |-| moves_made (init_ai 2 2) = {||}"
    by (simp add: init_ai_def)
  have n: "make_safe_move (init_ai 2 2) (Inr None, init_ai 2 2)"
    by (rule safe_move_none [OF refl]) (simp add: e)
  have "ai_one_safe = ai_one_safe \<and>
      (if safes ai_one_safe |-| moves_made ai_one_safe = {||}
       then (Inr (Some (1, 1)) :: error + cell option) = Inr None
       else \<exists>c. (Inr (Some (1, 1)) :: error + cell option) = Inr (Some c)
              \<and> c |\<in>| safes ai_one_safe |-| moves_made ai_one_safe)"
    using make_safe_move_spec [of ai_one_safe] ai_one_safe_move by blast
  then have "(1, 1) |\<in>| safes ai_one_safe |-| moves_made ai_one_safe"
    by (simp split: if_splits)
  with ai_one_safe_unmade ai_one_safe_move e n show ?thesis by simp
qed

subsection \<open>C8: make\_random\_move\<close>

text \<open>
  C8: in every state \<^verbatim>\<open>make_random_move\<close> returns; it returns \<^verbatim>\<open>None\<close> exactly when no cell
  of the grid is left outside \<^verbatim>\<open>moves_made\<close> and \<^verbatim>\<open>mines\<close>, and otherwise a cell of the grid
  that is in neither set; it raises nothing and leaves the state as it was.
\<close>

theorem make_random_move_spec:
  "(\<exists>out. make_random_move st out) \<and>
   (\<forall>r st'. make_random_move st (r, st') \<longrightarrow>
      st' = st \<and> (r = Inr None \<longleftrightarrow> candidates st = {||})
      \<and> (r \<noteq> Inr None \<longrightarrow>
           (\<exists>c. r = Inr (Some c) \<and> c |\<in>| candidates st
                \<and> c |\<notin>| mines st \<and> c |\<notin>| moves_made st)))"
proof -
  have "c |\<notin>| mines st \<and> c |\<notin>| moves_made st" if "c |\<in>| candidates st" for c
    using that by (simp add: candidates_def)
  then show ?thesis
    using make_random_move_total [of st] make_random_move_cases [of st] by blast
qed

text \<open>A grid of two cells with one played: the other one is the only outcome.\<close>

theorem make_random_move_spec_witness:
  "make_random_move ai_1x2 (Inr (Some (0, 1)), ai_1x2)
   \<and> candidates ai_1x2 = {|(0, 1)|}
   \<and> (0, 1) |\<in>| candidates ai_1x2 \<and> (0, 1) |\<notin>| mines ai_1x2 \<and> (0, 1) |\<notin>| moves_made ai_1x2"
proof -
  have u: "fset_of_list [(0, 1)] = get_undiscovered_cells ai_1x2"
    by code_simp
  have l: "py_list (get_undiscovered_cells ai_1x2) [(0, 1)]"
    by (rule py_listI [OF u]) simp
  have f: "[(0, 1)] = filter (\<lambda>x. x |\<notin>| mines ai_1x2) [(0, 1)]"
    by (simp add: ai_1x2_def)
  have r: "randint 0 (int (length [(0, 1) :: cell]) - 1) (Inr 0)"
    by (rule randint_value) simp_all
  have i: "py_index [(0, 1) :: cell] 0 = Inr (0, 1)"
    by (simp add: py_index_def)
  have m: "make_random_move ai_1x2 (Inr (Some (0, 1)), ai_1x2)"
    by (rule random_move_found [OF l f _ r i]) simp
  have c: "candidates ai_1x2 = {|(0, 1)|}"
    by code_simp
  have "\<exists>c. (Inr (Some (0, 1)) :: error + cell option) = Inr (Some c)
          \<and> c |\<in>| candidates ai_1x2 \<and> c |\<notin>| mines ai_1x2 \<and> c |\<notin>| moves_made ai_1x2"
    using make_random_move_spec [of ai_1x2] m by blast
  then have "(0, 1) |\<in>| candidates ai_1x2 \<and> (0, 1) |\<notin>| mines ai_1x2
      \<and> (0, 1) |\<notin>| moves_made ai_1x2"
    by simp
  with m c show ?thesis by simp
qed

subsection \<open>C9: the known sets only grow\<close>

text \<open>
  C9: each of \<^verbatim>\<open>mark_mine\<close>, \<^verbatim>\<open>mark_safe\<close>, \<^verbatim>\<open>add_knowledge\<close>, \<^verbatim>\<open>consolidate_cells\<close>,
  \<^verbatim>\<open>make_safe_move\<close> and \<^verbatim>\<open>make_random_move\<close> leaves \<^verbatim>\<open>moves_made\<close>, \<^verbatim>\<open>safes\<close> and \<^verbatim>\<open>mines\<close>
  each a superset of what it was, also when \<^verbatim>\<open>add_knowledge\<close> or \<^verbatim>\<open>consolidate_cells\<close>
  ends with an exception.
\<close>

theorem known_sets_grow:
  "grows st (mark_mine st c) \<and> grows st (mark_safe st c)
   \<and> grows st (snd (add_knowledge st c cnt)) \<and> grows st (snd (consolidate_cells st))
   \<and> (\<forall>r st'. make_safe_move st (r, st') \<longrightarrow> grows st st')
   \<and> (\<forall>r st'. make_random_move st (r, st') \<longrightarrow> grows st st')"
proof -
  have a: "grows st st'" if "make_safe_move st (r, st')" for r st'
    using make_safe_move_state [OF that] by simp
  have b: "grows st st'" if "make_random_move st (r, st')" for r st'
    using make_random_move_state [OF that] by simp
  show ?thesis
    using a b
    by (simp add: grows_mark_mine grows_mark_safe grows_add_knowledge grows_consolidate_cells)
qed

text \<open>A safe move and a marked mine in the state \<open>ai_one_safe\<close>.\<close>

theorem known_sets_grow_witness:
  "make_safe_move ai_one_safe (Inr (Some (1, 1)), ai_one_safe)
   \<and> grows ai_one_safe ai_one_safe
   \<and> grows ai_one_safe (mark_mine ai_one_safe (0, 1))
   \<and> mines (mark_mine ai_one_safe (0, 1)) = {|(0, 1)|}"
proof -
  have "grows ai_one_safe ai_one_safe"
    using known_sets_grow [of ai_one_safe] ai_one_safe_move by blast
  moreover have "grows ai_one_safe (mark_mine ai_one_safe (0, 1))"
    using known_sets_grow [of ai_one_safe "(0, 1)"] by blast
  moreover have "mines (mark_mine ai_one_safe (0, 1)) = {|(0, 1)|}"
    by code_simp
  ultimately show ?thesis using ai_one_safe_move by simp
qed

subsection \<open>C10: known\_mines and known\_safes\<close>

text \<open>
  C10: \<^verbatim>\<open>Sentence.known_mines\<close> and \<^verbatim>\<open>Sentence.known_safes\<close> fail with \<^verbatim>\<open>AttributeError\<close> on
  every call, because the class \<^verbatim>\<open>MinesweeperAI\<close> has no attribute \<^verbatim>\<open>mines\<close> or \<^verbatim>\<open>safes\<close>; and
  no operation of the engine can end with that exception: \<^verbatim>\<open>mark_mine\<close> and \<^verbatim>\<open>mark_safe\<close>
  raise nothing at all, \<^verbatim>\<open>consolidate_cells\<close> and \<^verbatim>\<open>add_knowledge\<close> raise at most
  \<^verbatim>\<open>ValueError\<close>, and the two move selectors raise nothing.
\<close>

theorem known_mines_unreachable:
  "known_mines s = Inl AttributeError \<and> known_safes s = Inl AttributeError
   \<and> fst (consolidate_cells st) \<noteq> Some AttributeError
   \<and> fst (add_knowledge st c cnt) \<noteq> Some AttributeError
   \<and> \<not> make_safe_move st (Inl AttributeError, st')
   \<and> \<not> make_random_move st (Inl AttributeError, st')"
proof -
  have k: "known_mines s = Inl AttributeError \<and> known_safes s = Inl AttributeError"
    by (simp add: known_mines_def known_safes_def class_getattr_def MinesweeperAI_class_body_def)
  have a: "fst (consolidate_cells x) \<noteq> Some AttributeError" for x
    using consolidate_cells_error [of x] by auto
  show ?thesis
    using k a make_safe_move_no_error make_random_move_no_error
    by (simp add: add_knowledge_clue)
qed

section \<open>Further properties\<close>

subsection \<open>add\_knowledge returns in every game\<close>

text \<open>
  In a state reachable in a game on a board, \<^verbatim>\<open>add_knowledge\<close> called with a cell that is
  not a mine and the board's count for it raises no exception: the \<^verbatim>\<open>ValueError\<close> of
  \<^verbatim>\<open>self.knowledge.remove(sentence1)\<close> needs two stored sentences with the same cells and
  different counts, which a sound knowledge base does not have.
\<close>

theorem add_knowledge_returns:
  "reachable b st \<Longrightarrow> \<not> is_mine b c \<Longrightarrow> fst (add_knowledge st c (nearby_mines b c)) = None"
proof -
  assume "reachable b st" and c: "\<not> is_mine b c"
  then have "sound b st" by (simp add: reachable_sound)
  then have "sound b (clue_state st c (nearby_mines b c))"
    using c by (rule sound_clue_state)
  then show ?thesis
    unfolding add_knowledge_clue by (rule consolidate_cells_no_raise)
qed

text \<open>The third clue of the game on \<open>board_2x3\<close>.\<close>

theorem add_knowledge_returns_witness:
  "reachable board_2x3 ai_2x3 \<and> \<not> is_mine board_2x3 (1, 2)
   \<and> add_knowledge ai_2x3 (1, 2) (nearby_mines board_2x3 (1, 2)) = (None, kb_once)"
proof -
  have m: "\<not> is_mine board_2x3 (1, 2)"
    by (simp add: is_mine_def board_2x3_def)
  from add_knowledge_returns [OF ai_2x3_reachable m] kb_once_arises ai_2x3_reachable m
  show ?thesis by simp
qed

subsection \<open>consolidate\_cells can raise\<close>

text \<open>
  On the contradictory knowledge base the second loop removes \<^verbatim>\<open>sentence1\<close> when it meets
  the second sentence, and raises \<^verbatim>\<open>ValueError\<close> when it meets the fourth: \<^verbatim>\<open>sentence1\<close> is
  no longer in the list and no stored sentence is equal to it.
\<close>

theorem consolidate_cells_can_raise:
  "fst (consolidate_cells kb_contradictory) = Some ValueError"
  by code_simp

end
